theory Spec2Isabelle
  imports
    Main
    "HOL-Library.AList"
    "HOL-Library.Char_ord"
    "HOL-Library.List_Lexorder"
begin

section \<open>Data model of \<open>src/lib.ts\<close>\<close>

text \<open>
  The interfaces \<open>Repository\<close>, \<open>Cache\<close> and \<open>Config\<close> become records. JavaScript numbers
  that hold counts are modelled as \<open>int\<close>; strings are \<open>string\<close>, compared code unit by
  code unit as the operators \<open>>\<close> and \<open><\<close> of JavaScript do on strings (the
  lexicographic order of \<open>HOL-Library.List_Lexorder\<close> over \<open>HOL-Library.Char_ord\<close>).
\<close>

record Repository =
  name :: string
  fullName :: string
  url :: string
  stars :: int
  prCount :: int
  isOwned :: bool
  isPrivate :: bool
  lastContributedAt :: string

text \<open>One item of a search page: the two fields of it that \<open>fetchPRsForYear\<close> reads.\<close>

record PullRequest =
  repository_url :: string
  created_at :: string

text \<open>
  A JavaScript \<open>Map\<close> and a plain object used as a dictionary both keep their keys in
  insertion order, and \<open>Array.from(reposMap.values())\<close> and \<open>Object.values\<close> read them
  in that order. Both are association lists here: \<open>map_of\<close> is the lookup,
  \<open>AList.update\<close> is \<open>set\<close> (replace the value in place, or append a new key at the
  end), and \<open>map snd\<close> lists the values.
\<close>

type_synonym reposMap = "(string \<times> Repository) list"

section \<open>String primitives\<close>

text \<open>\<open>s.startsWith(p)\<close>.\<close>

definition startsWith :: "string \<Rightarrow> string \<Rightarrow> bool" where
  "startsWith s p = (take (length p) s = p)"

text \<open>\<open>s.split(sep)\<close> for a separator of one character: never empty, \<open>"".split("/")\<close> is \<open>[""]\<close>.\<close>

fun split_str :: "char \<Rightarrow> string \<Rightarrow> string list" where
  "split_str sep [] = [[]]"
| "split_str sep (c # cs) =
     (if c = sep then [] # split_str sep cs
      else (case split_str sep cs of
              [] \<Rightarrow> [[c]]
            | p # ps \<Rightarrow> (c # p) # ps))"

section \<open>Parsing a repository reference\<close>

definition isValidRepoUrl :: "string \<Rightarrow> bool" where
  "isValidRepoUrl u = startsWith u ''https://api.github.com/repos/''"

text \<open>
  \<open>parseRepoUrl\<close> returns \<open>null\<close> (here \<open>None\<close>) for a reference of another shape and
  otherwise joins the last two segments. The two indexed reads are in range for every
  valid reference (lemma \<open>split_str_valid_length\<close> below).
\<close>

definition parseRepoUrl :: "string \<Rightarrow> string option" where
  "parseRepoUrl u =
     (if \<not> isValidRepoUrl u then None
      else let parts = split_str CHR ''/'' u
           in Some (parts ! (length parts - 2) @ ''/'' @ parts ! (length parts - 1)))"

section \<open>Folding pull-request records into rollups\<close>

text \<open>
  The body of the loop \<open>for (const pr of items)\<close> of \<open>fetchPRsForYear\<close>. The test
  \<open>if (fullName)\<close> is JavaScript truthiness: \<open>null\<close> and the empty string fail it. The
  test \<open>if (existing)\<close> holds for every stored object. \<open>existing\<close> is mutated in place,
  which on the association list is an update at its key.
\<close>

definition foldPR :: "string \<Rightarrow> reposMap \<Rightarrow> PullRequest \<Rightarrow> reposMap" where
  "foldPR username reposMap pr =
     (let createdAt = created_at pr in
      case parseRepoUrl (repository_url pr) of
        None \<Rightarrow> reposMap
      | Some fullName' \<Rightarrow>
          if fullName' = [] then reposMap
          else
            let isOwned' = startsWith fullName' (username @ ''/'') in
            (case map_of reposMap fullName' of
               Some existing \<Rightarrow>
                 let e1 = existing\<lparr>prCount := prCount existing + 1\<rparr>;
                     e2 = (if createdAt > lastContributedAt e1
                           then e1\<lparr>lastContributedAt := createdAt\<rparr> else e1)
                 in AList.update fullName' e2 reposMap
             | None \<Rightarrow>
                 AList.update fullName'
                   \<lparr> name = split_str CHR ''/'' fullName' ! 1,
                     fullName = fullName',
                     url = ''https://github.com/'' @ fullName',
                     stars = 0,
                     prCount = 1,
                     isOwned = isOwned',
                     isPrivate = False,
                     lastContributedAt = createdAt \<rparr>
                   reposMap))"

text \<open>The records of one page, folded in order.\<close>

definition foldItems :: "string \<Rightarrow> reposMap \<Rightarrow> PullRequest list \<Rightarrow> reposMap" where
  "foldItems username reposMap items = foldl (foldPR username) reposMap items"

text \<open>The records of a sequence whose reference parses to the repository \<open>f\<close>.\<close>

definition recordsFor :: "string \<Rightarrow> PullRequest list \<Rightarrow> PullRequest list" where
  "recordsFor f prs = filter (\<lambda>p. parseRepoUrl (repository_url p) = Some f) prs"

section \<open>The remote data source and the runtime\<close>

text \<open>
  \<open>ghApi\<close> throws on a rate-limited 403 and on every other non-success response; the
  call can also fail in \<open>fetch\<close> or in \<open>JSON.parse\<close>.
\<close>

datatype error = RateLimited string | ApiError nat | RequestFailed

text \<open>The body of \<open>/repos/{fullName}\<close>: the two fields read, each possibly absent.\<close>

record RepoJson =
  stargazers_count :: "int option"
  private' :: "bool option"

text \<open>
  What the program takes from outside, as parameters: \<open>searchIssues username year page\<close> is
  the outcome of the \<open>ghApi\<close> call of \<open>fetchPRsForYear\<close> followed by \<open>JSON.parse\<close> and
  \<open>data.items || []\<close>; \<open>repoApi fullName\<close> is the outcome of the call of
  \<open>fetchRepoData\<close>; \<open>parseDate\<close> is \<open>new Date(s).getTime()\<close> (\<open>None\<close> for \<open>NaN\<close>);
  \<open>toISOString\<close> and \<open>getFullYear\<close> read a time in milliseconds; \<open>localeCompare\<close> is the
  collation used by \<open>sortRepos\<close>; \<open>authenticatedUser\<close> is the result of
  \<open>getAuthenticatedUser\<close>.
\<close>

record Env =
  searchIssues :: "string \<Rightarrow> int \<Rightarrow> nat \<Rightarrow> error + PullRequest list"
  repoApi :: "string \<Rightarrow> error + RepoJson"
  parseDate :: "string \<Rightarrow> int option"
  toISOString :: "int \<Rightarrow> string"
  getFullYear :: "int \<Rightarrow> int"
  localeCompare :: "string \<Rightarrow> string \<Rightarrow> int"
  authenticatedUser :: string

section \<open>Configuration and caches\<close>

datatype Scope = ScopeOwn | ScopeExternal | ScopeAll

datatype SortBy = SortStars | SortContributions | SortAll | SortRecent

record Config =
  scope :: Scope
  sortBy :: SortBy
  includePrivate :: bool
  limit :: int
  include' :: "string list"
  exclude' :: "string list"
  user :: "string option"
  starsLimit :: "int option"

definition DEFAULT_CONFIG :: Config where
  "DEFAULT_CONFIG =
     \<lparr> scope = ScopeExternal, sortBy = SortStars, includePrivate = False, limit = 0,
       include' = [], exclude' = [], user = None, starsLimit = Some 20 \<rparr>"

text \<open>The durable cache, the content of \<open>cache.json\<close>.\<close>

record Cache =
  username :: string
  repos :: reposMap
  fetchedAt :: string

definition CACHE_TTL_MS :: int where
  "CACHE_TTL_MS = 24 * 60 * 60 * 1000"

definition CACHE_AGE_MS :: int where
  "CACHE_AGE_MS = 60 * 1000"

definition STALE_WHILE_REVALIDATE_MS :: int where
  "STALE_WHILE_REVALIDATE_MS = 24 * 60 * 60 * 1000"

text \<open>One entry of \<open>memoryCache\<close>.\<close>

record MemoryEntry =
  data :: "Repository list option"
  fetchedAtMs :: int

text \<open>
  The module state. \<open>cacheFile\<close> is the content of \<open>cache.json\<close> (\<open>None\<close>: missing, empty
  or unparseable). \<open>revalidatePromise\<close> holds the identifier of the promise stored in the
  variable of that name, \<open>None\<close> for \<open>null\<close>. \<open>pending\<close> lists the background calls of
  \<open>fetchAndCache\<close> started by \<open>getRepos\<close> that have not settled yet, each with its
  identifier and its arguments; \<open>nextPromise\<close> numbers them.
\<close>

record State =
  cacheFile :: "Cache option"
  memoryCache :: "string \<rightharpoonup> MemoryEntry"
  revalidatePromise :: "nat option"
  revalidateUser :: "string option"
  pending :: "(nat \<times> string \<times> Config) list"
  nextPromise :: nat

definition initialState :: State where
  "initialState =
     \<lparr> cacheFile = None, memoryCache = Map.empty, revalidatePromise = None,
       revalidateUser = None, pending = [], nextPromise = 0 \<rparr>"

section \<open>Array primitives\<close>

text \<open>
  \<open>Array.prototype.sort\<close> is stable; with a comparator that is a total preorder its
  result is that of the stable insertion sort below (\<open>cmp a b \<le> 0\<close> keeps \<open>a\<close> first).
\<close>

fun insert_by :: "('a \<Rightarrow> 'a \<Rightarrow> int) \<Rightarrow> 'a \<Rightarrow> 'a list \<Rightarrow> 'a list" where
  "insert_by cmp x [] = [x]"
| "insert_by cmp x (y # ys) = (if cmp x y \<le> 0 then x # y # ys else y # insert_by cmp x ys)"

definition sort_by :: "('a \<Rightarrow> 'a \<Rightarrow> int) \<Rightarrow> 'a list \<Rightarrow> 'a list" where
  "sort_by cmp xs = foldr (insert_by cmp) xs []"

text \<open>
  \<open>xs.slice(start, end)\<close> and \<open>xs.slice(start)\<close> for integral arguments: a negative
  index counts from the end, and both are clamped to the array.
\<close>

definition relIndex :: "nat \<Rightarrow> int \<Rightarrow> nat" where
  "relIndex len i = (if i < 0 then nat (max (int len + i) 0) else min (nat i) len)"

definition slice :: "'a list \<Rightarrow> int \<Rightarrow> int \<Rightarrow> 'a list" where
  "slice xs start final =
     (let k = relIndex (length xs) start; e = relIndex (length xs) final
      in take (e - k) (drop k xs))"

definition sliceFrom :: "'a list \<Rightarrow> int \<Rightarrow> 'a list" where
  "sliceFrom xs start = drop (relIndex (length xs) start) xs"

section \<open>The aggregator\<close>

definition perPage :: nat where
  "perPage = 100"

definition startYear :: int where
  "startYear = 2015"

text \<open>
  \<open>fetchPRsForYear\<close>: the loop \<open>while (true)\<close> over the pages of one year. Nothing bounds
  the number of full pages the remote may return, so the loop takes fuel, the number of
  pages it may still request; \<open>None\<close> is the outcome of a run that needs more. A thrown
  error is \<open>Some (Inl e)\<close>, and the map mutated so far is lost with it. Beside the
  outcome the function returns the page requests it made, as \<open>(year, page)\<close>, in order.
\<close>

fun fetchPRsForYear ::
  "nat \<Rightarrow> Env \<Rightarrow> string \<Rightarrow> int \<Rightarrow> nat \<Rightarrow> nat \<Rightarrow> reposMap
     \<Rightarrow> (int \<times> nat) list \<times> (error + nat \<times> reposMap) option" where
  "fetchPRsForYear 0 env username' year page totalFetched reposMap = ([], None)"
| "fetchPRsForYear (Suc fuel) env username' year page totalFetched reposMap =
     (case searchIssues env username' year page of
        Inl e \<Rightarrow> ([(year, page)], Some (Inl e))
      | Inr items \<Rightarrow>
          if length items = 0 then ([(year, page)], Some (Inr (totalFetched, reposMap)))
          else
            let totalFetched' = totalFetched + length items;
                reposMap' = foldItems username' reposMap items
            in if length items < perPage
               then ([(year, page)], Some (Inr (totalFetched', reposMap')))
               else (case fetchPRsForYear fuel env username' year (page + 1)
                            totalFetched' reposMap' of
                       (calls, res) \<Rightarrow> ((year, page) # calls, res)))"

text \<open>The loop \<open>for (let year = currentYear; year >= startYear; year--)\<close>.\<close>

fun yearsLoop ::
  "nat \<Rightarrow> Env \<Rightarrow> string \<Rightarrow> int list \<Rightarrow> reposMap
     \<Rightarrow> (int \<times> nat) list \<times> (error + reposMap) option" where
  "yearsLoop fuel env username' [] reposMap = ([], Some (Inr reposMap))"
| "yearsLoop fuel env username' (year # years) reposMap =
     (case fetchPRsForYear fuel env username' year 1 0 reposMap of
        (calls, None) \<Rightarrow> (calls, None)
      | (calls, Some (Inl e)) \<Rightarrow> (calls, Some (Inl e))
      | (calls, Some (Inr (count, reposMap'))) \<Rightarrow>
          (case yearsLoop fuel env username' years reposMap' of
             (calls', res) \<Rightarrow> (calls @ calls', res)))"

definition fetchContributedRepos ::
  "nat \<Rightarrow> Env \<Rightarrow> string \<Rightarrow> int
     \<Rightarrow> (int \<times> nat) list \<times> (error + Repository list) option" where
  "fetchContributedRepos fuel env username' currentYear =
     (case yearsLoop fuel env username' (rev [startYear..currentYear]) [] of
        (calls, None) \<Rightarrow> (calls, None)
      | (calls, Some (Inl e)) \<Rightarrow> (calls, Some (Inl e))
      | (calls, Some (Inr reposMap)) \<Rightarrow> (calls, Some (Inr (map snd reposMap))))"

section \<open>The metadata enricher\<close>

text \<open>\<open>fetchRepoData\<close> never throws: every failure of the call is the default pair.\<close>

definition fetchRepoData :: "Env \<Rightarrow> string \<Rightarrow> int \<times> bool" where
  "fetchRepoData env fullName' =
     (case repoApi env fullName' of
        Inr d \<Rightarrow>
          (case stargazers_count d of None \<Rightarrow> 0 | Some n \<Rightarrow> (if n = 0 then 0 else n),
           case private' d of None \<Rightarrow> False | Some b \<Rightarrow> b)
      | Inl e \<Rightarrow> (0, False))"

text \<open>The four assignments of the loop over \<open>cachedRepos\<close>.\<close>

definition useCached :: "Repository \<Rightarrow> Repository \<Rightarrow> Repository" where
  "useCached repo cached =
     repo\<lparr> stars := stars cached, isOwned := isOwned cached,
           isPrivate := isPrivate cached, lastContributedAt := lastContributedAt cached \<rparr>"

text \<open>The two assignments of the loop over \<open>toFetch\<close>.\<close>

definition useFetched :: "Env \<Rightarrow> Repository \<Rightarrow> Repository" where
  "useFetched env repo =
     (let d = fetchRepoData env (fullName repo)
      in repo\<lparr> stars := fst d, isPrivate := snd d \<rparr>)"

text \<open>
  \<open>fetchStarsForRepos\<close> splits \<open>repos\<close> into \<open>cachedRepos\<close> and \<open>toFetch\<close> by one test
  against the cache as it is passed in, before either loop runs, and then mutates the
  objects of both parts in place. The first loop reads the cache and writes no entry of
  it; the second writes the cache (a copy \<open>{...repo}\<close> of each fetched object) and reads
  none. So the array after the call is \<open>repos\<close> with every object replaced according to
  its part, the cache is the old one updated with the fetched objects in the order of
  \<open>toFetch\<close>, and the live calls are those of \<open>toFetch\<close>, in order. The third component
  of the result lists them.
\<close>

definition cachedRepos :: "Repository list \<Rightarrow> Cache \<Rightarrow> Repository list" where
  "cachedRepos rs cache = filter (\<lambda>r. map_of (repos cache) (fullName r) \<noteq> None) rs"

definition toFetch :: "Repository list \<Rightarrow> Cache \<Rightarrow> Repository list" where
  "toFetch rs cache = filter (\<lambda>r. map_of (repos cache) (fullName r) = None) rs"

definition fetchStarsForRepos ::
  "Env \<Rightarrow> Repository list \<Rightarrow> Cache \<Rightarrow> Repository list \<times> Cache \<times> string list" where
  "fetchStarsForRepos env rs cache =
     (let rs' = map (\<lambda>repo. case map_of (repos cache) (fullName repo) of
                              Some cached \<Rightarrow> useCached repo cached
                            | None \<Rightarrow> useFetched env repo) rs;
          cache' = foldl (\<lambda>c repo. c\<lparr>repos :=
                            AList.update (fullName repo) (useFetched env repo) (repos c)\<rparr>)
                     cache (toFetch rs cache)
      in (rs', cache', map fullName (toFetch rs cache)))"

text \<open>\<open>config.starsLimit || 20\<close>: an absent limit and the limit 0 both give 20.\<close>

definition effectiveStarsLimit :: "Config \<Rightarrow> int" where
  "effectiveStarsLimit config =
     (case starsLimit config of None \<Rightarrow> 20 | Some n \<Rightarrow> (if n = 0 then 20 else n))"

text \<open>The array \<open>repos\<close> after \<open>repos.sort((a, b) => b.prCount - a.prCount)\<close>.\<close>

definition rankRepos :: "Repository list \<Rightarrow> Repository list" where
  "rankRepos rs = sort_by (\<lambda>a b. prCount b - prCount a) rs"

definition topRepos :: "Config \<Rightarrow> Repository list \<Rightarrow> Repository list" where
  "topRepos config rs = slice (rankRepos rs) 0 (effectiveStarsLimit config)"

definition otherRepos :: "Config \<Rightarrow> Repository list \<Rightarrow> Repository list" where
  "otherRepos config rs = sliceFrom (rankRepos rs) (effectiveStarsLimit config)"

text \<open>
  The enrichment pass, the lines of \<open>fetchAndCache\<close> from the sort to the loop over
  \<open>otherRepos\<close>. The two slices share their objects with \<open>repos\<close> and split it at one
  index (lemma \<open>slice_sliceFrom\<close>), so \<open>repos\<close> after the pass is the enriched top part
  followed by the enriched rest.
\<close>

definition enrichment ::
  "Env \<Rightarrow> Config \<Rightarrow> Repository list \<Rightarrow> Cache \<Rightarrow> Repository list \<times> Cache \<times> string list" where
  "enrichment env config rs cache =
     (case fetchStarsForRepos env (topRepos config rs) cache of
        (top', cache', calls) \<Rightarrow>
          (top' @ map (\<lambda>repo. case map_of (repos cache') (fullName repo) of
                                Some cached \<Rightarrow>
                                  repo\<lparr>stars := stars cached, isPrivate := isPrivate cached\<rparr>
                              | None \<Rightarrow> repo) (otherRepos config rs),
           cache', calls))"

definition liveFetches :: "Env \<Rightarrow> Config \<Rightarrow> Repository list \<Rightarrow> Cache \<Rightarrow> string list" where
  "liveFetches env config rs cache = snd (snd (enrichment env config rs cache))"

definition enriched :: "Env \<Rightarrow> Config \<Rightarrow> Repository list \<Rightarrow> Cache \<Rightarrow> Repository list" where
  "enriched env config rs cache = fst (enrichment env config rs cache)"

section \<open>The durable cache\<close>

definition loadCache :: "State \<Rightarrow> Cache" where
  "loadCache s =
     (case cacheFile s of
        None \<Rightarrow> \<lparr> username = [], repos = [], fetchedAt = [] \<rparr>
      | Some c \<Rightarrow> c)"

definition saveCache :: "Env \<Rightarrow> int \<Rightarrow> Cache \<Rightarrow> State \<Rightarrow> State" where
  "saveCache env now cache s = s\<lparr> cacheFile := Some (cache\<lparr> fetchedAt := toISOString env now \<rparr>) \<rparr>"

text \<open>A date that does not parse is \<open>NaN\<close>, and every comparison with \<open>NaN\<close> is false.\<close>

definition isCacheStale :: "Env \<Rightarrow> int \<Rightarrow> Cache \<Rightarrow> bool" where
  "isCacheStale env now cache =
     (if fetchedAt cache = [] then True
      else (case parseDate env (fetchedAt cache) of
              None \<Rightarrow> False
            | Some t \<Rightarrow> now - t > CACHE_TTL_MS))"

section \<open>\<open>fetchAndCache\<close>\<close>

text \<open>
  One run of \<open>fetchAndCache\<close>, taken as a whole: \<open>t0\<close> is the time read by
  \<open>isCacheStale\<close>, \<open>t1\<close> the time read by \<open>saveCache\<close> and by \<open>memoryCache.set\<close>. The
  result holds the page requests and the live metadata calls the run made, its outcome
  (\<open>None\<close>: out of fuel, \<open>Some (Inl e)\<close>: it threw \<open>e\<close>) and the state it leaves. The
  only writes, to the file and to \<open>memoryCache\<close>, are the last two statements, so a run
  that throws writes nothing. The objects of a cache whose list is reused are those of
  \<open>cache.repos\<close> themselves; every entry the program writes is stored under its own
  \<open>fullName\<close>, and for such a cache the enrichment assigns each object its own values.
\<close>

definition fetchAndCache ::
  "Env \<Rightarrow> nat \<Rightarrow> int \<Rightarrow> int \<Rightarrow> string \<Rightarrow> Config \<Rightarrow> State
     \<Rightarrow> ((int \<times> nat) list \<times> string list) \<times> (error + Repository list) option \<times> State" where
  "fetchAndCache env fuel t0 t1 username' config s =
     (let cache = loadCache s;
          (pages, fetched, cache1) =
            (if \<not> isCacheStale env t0 cache \<and> username cache = username'
                \<and> length (map fst (repos cache)) > 0
             then ([], Some (Inr (map snd (repos cache))), cache)
             else (case fetchContributedRepos fuel env username' (getFullYear env t0) of
                     (calls, res) \<Rightarrow> (calls, res, cache\<lparr> username := username' \<rparr>)))
      in case fetched of
           None \<Rightarrow> ((pages, []), None, s)
         | Some (Inl e) \<Rightarrow> ((pages, []), Some (Inl e), s)
         | Some (Inr rs) \<Rightarrow>
             (case enrichment env config rs cache1 of
                (rs', cache2, calls) \<Rightarrow>
                  ((pages, calls), Some (Inr rs'),
                   (saveCache env t1 cache2 s)
                     \<lparr> memoryCache :=
                         (memoryCache s)(username' \<mapsto> \<lparr> data = Some rs', fetchedAtMs = t1 \<rparr>) \<rparr>)))"

section \<open>The projection pipeline\<close>

text \<open>The callback of \<open>repos.filter\<close> in \<open>filterRepos\<close>.\<close>

definition keepRepo :: "Config \<Rightarrow> Repository \<Rightarrow> bool" where
  "keepRepo config repo =
     (if fullName repo \<in> set (exclude' config) then False
      else if fullName repo \<in> set (include' config) then True
      else if scope config = ScopeOwn \<and> \<not> isOwned repo then False
      else if scope config = ScopeExternal \<and> isOwned repo then False
      else if \<not> includePrivate config \<and> isPrivate repo then False
      else True)"

text \<open>
  The loop over \<open>config.include\<close>. \<open>filteredSet\<close> is built once, before the loop, and is
  not extended by the pushes.
\<close>

fun includeLoop ::
  "string list \<Rightarrow> string list \<Rightarrow> string list \<Rightarrow> Repository list \<Rightarrow> Repository list
     \<Rightarrow> Repository list" where
  "includeLoop [] filteredSet excludeSet allRepos filtered = filtered"
| "includeLoop (fullName' # rest) filteredSet excludeSet allRepos filtered =
     (if fullName' \<notin> set filteredSet \<and> fullName' \<notin> set excludeSet
      then (case find (\<lambda>r. fullName r = fullName') allRepos of
              Some repo \<Rightarrow> includeLoop rest filteredSet excludeSet allRepos (filtered @ [repo])
            | None \<Rightarrow> includeLoop rest filteredSet excludeSet allRepos filtered)
      else includeLoop rest filteredSet excludeSet allRepos filtered)"

definition filterRepos :: "Repository list \<Rightarrow> Config \<Rightarrow> Repository list \<Rightarrow> Repository list" where
  "filterRepos rs config allRepos =
     (let filtered = filter (keepRepo config) rs;
          filteredSet = map fullName filtered
      in includeLoop (include' config) filteredSet (exclude' config) allRepos filtered)"

definition sortRepos :: "Env \<Rightarrow> Repository list \<Rightarrow> Config \<Rightarrow> Repository list" where
  "sortRepos env rs config =
     sort_by (\<lambda>a b.
        case sortBy config of
          SortStars \<Rightarrow> stars b - stars a
        | SortContributions \<Rightarrow> prCount b - prCount a
        | SortAll \<Rightarrow> stars b * (prCount b) ^ 2 - stars a * (prCount a) ^ 2
        | SortRecent \<Rightarrow> localeCompare env (lastContributedAt b) (lastContributedAt a)) rs"

text \<open>The three statements \<open>getRepos\<close> applies to a list before it returns it.\<close>

definition project :: "Env \<Rightarrow> Repository list \<Rightarrow> Config \<Rightarrow> Repository list" where
  "project env rs config =
     (let filtered = sortRepos env (filterRepos rs config rs) config
      in if limit config > 0 then slice filtered 0 (limit config) else filtered)"

section \<open>The memory cache and the revalidator\<close>

record CacheStats =
  fromCache :: bool
  isStale :: bool
  age :: int

definition NO_CACHE :: CacheStats where
  "NO_CACHE = \<lparr> fromCache = False, isStale = False, age = 0 \<rparr>"

text \<open>The value \<open>getRepos\<close> resolves to: the repositories, the cache statistics, the user.\<close>

type_synonym Reply = "Repository list \<times> CacheStats \<times> string"

text \<open>\<open>config.user || await getAuthenticatedUser()\<close>.\<close>

definition resolveUser :: "Env \<Rightarrow> Config \<Rightarrow> string" where
  "resolveUser env config =
     (case user config of
        None \<Rightarrow> authenticatedUser env
      | Some u \<Rightarrow> (if u = [] then authenticatedUser env else u))"

text \<open>
  The assignment pair \<open>revalidateUser = username; revalidatePromise = fetchAndCache(...)\<close>:
  the call starts in the background and is recorded in \<open>pending\<close> until it settles.
\<close>

definition scheduleRevalidation :: "string \<Rightarrow> Config \<Rightarrow> State \<Rightarrow> State" where
  "scheduleRevalidation username' config s =
     s\<lparr> revalidateUser := Some username',
        revalidatePromise := Some (nextPromise s),
        pending := pending s @ [(nextPromise s, username', config)],
        nextPromise := Suc (nextPromise s) \<rparr>"

text \<open>
  \<open>getRepos\<close> up to its first \<open>return\<close>: the read of the memory cache at time \<open>now\<close>.
  \<open>Inl username\<close> is the fall-through to the synchronous \<open>fetchAndCache\<close>, \<open>Inr reply\<close>
  the reply served from the memory cache.
\<close>

definition readMemoryCache :: "Env \<Rightarrow> int \<Rightarrow> Config \<Rightarrow> State \<Rightarrow> (string + Reply) \<times> State" where
  "readMemoryCache env now config s =
     (let username' = resolveUser env config;
          cached = memoryCache s username';
          isFresh = (case cached of None \<Rightarrow> False
                     | Some c \<Rightarrow> now - fetchedAtMs c < CACHE_AGE_MS);
          isStale' = (case cached of None \<Rightarrow> False
                      | Some c \<Rightarrow> now - fetchedAtMs c < STALE_WHILE_REVALIDATE_MS)
      in case cached of
           None \<Rightarrow> (Inl username', s)
         | Some c \<Rightarrow>
             (case data c of
                None \<Rightarrow> (Inl username', s)
              | Some d \<Rightarrow>
                  let age' = now - fetchedAtMs c;
                      fromCache' = (isFresh \<or> isStale')
                  in if fromCache'
                     then
                       let rs = project env d config;
                           s' = (if isStale' \<and> (revalidatePromise s = None
                                               \<or> revalidateUser s \<noteq> Some username')
                                 then scheduleRevalidation username' config s
                                 else s)
                       in (Inr (rs, \<lparr> fromCache = True, isStale = \<not> isFresh, age = age' \<rparr>,
                                username'), s')
                     else (Inl username', s)))"

text \<open>
  \<open>getRepos\<close> as a whole; the synchronous \<open>fetchAndCache\<close> of a miss runs at the times
  \<open>t0\<close> and \<open>t1\<close>. \<open>None\<close>: that run is out of fuel.
\<close>

definition getRepos ::
  "Env \<Rightarrow> nat \<Rightarrow> int \<Rightarrow> int \<Rightarrow> int \<Rightarrow> Config \<Rightarrow> State \<Rightarrow> (error + Reply) option \<times> State" where
  "getRepos env fuel now t0 t1 config s =
     (case readMemoryCache env now config s of
        (Inr reply, s') \<Rightarrow> (Some (Inr reply), s')
      | (Inl username', s') \<Rightarrow>
          (case fetchAndCache env fuel t0 t1 username' config s' of
             (calls, None, s'') \<Rightarrow> (None, s'')
           | (calls, Some (Inl e), s'') \<Rightarrow> (Some (Inl e), s'')
           | (calls, Some (Inr rs), s'') \<Rightarrow>
               (Some (Inr (project env rs config, NO_CACHE, username')), s'')))"

text \<open>
  The background call with identifier \<open>pid\<close> settles: its run of \<open>fetchAndCache\<close> takes
  effect and it leaves \<open>pending\<close>. Nothing is chained to the promise (no \<open>then\<close>,
  \<open>catch\<close> or \<open>finally\<close>), so a fulfilled and a rejected promise alike touch neither
  \<open>revalidatePromise\<close> nor \<open>revalidateUser\<close>. A run out of fuel never settles. The
  run is taken as a whole at the moment it settles: it reads the cache file as it is
  then, where the program reads it right after the call starts.
\<close>

definition settle :: "Env \<Rightarrow> nat \<Rightarrow> int \<Rightarrow> int \<Rightarrow> nat \<Rightarrow> State \<Rightarrow> State" where
  "settle env fuel t0 t1 pid s =
     (case find (\<lambda>p. fst p = pid) (pending s) of
        None \<Rightarrow> s
      | Some (i, username', config) \<Rightarrow>
          (case fetchAndCache env fuel t0 t1 username' config s of
             (calls, None, s') \<Rightarrow> s
           | (calls, Some res, s') \<Rightarrow>
               s'\<lparr> pending := filter (\<lambda>p. fst p \<noteq> pid) (pending s') \<rparr>))"

text \<open>The background revalidations in flight for one user.\<close>

definition inFlightFor :: "string \<Rightarrow> State \<Rightarrow> nat list" where
  "inFlightFor username' s = map fst (filter (\<lambda>p. fst (snd p) = username') (pending s))"

section \<open>Example inputs\<close>

text \<open>Three search items: two for \<open>alice/x\<close> and one whose reference has another shape.\<close>

definition ex_pr1 :: PullRequest where
  "ex_pr1 = \<lparr> repository_url = ''https://api.github.com/repos/alice/x'',
              created_at = ''2024-03-01T10:00:00Z'' \<rparr>"

definition ex_pr2 :: PullRequest where
  "ex_pr2 = \<lparr> repository_url = ''https://github.com/alice/x'',
              created_at = ''2024-05-01T10:00:00Z'' \<rparr>"

definition ex_pr3 :: PullRequest where
  "ex_pr3 = \<lparr> repository_url = ''https://api.github.com/repos/alice/x'',
              created_at = ''2024-02-01T10:00:00Z'' \<rparr>"

definition ex_prs :: "PullRequest list" where
  "ex_prs = [ex_pr1, ex_pr2, ex_pr3]"

definition ex_rollup :: Repository where
  "ex_rollup = \<lparr> name = ''x'', fullName = ''alice/x'', url = ''https://github.com/alice/x'',
                 stars = 0, prCount = 2, isOwned = True, isPrivate = False,
                 lastContributedAt = ''2024-03-01T10:00:00Z'' \<rparr>"

text \<open>Three rollups and a configuration that lists two of them and excludes one of those.\<close>

definition ex_ext :: Repository where
  "ex_ext = \<lparr> name = ''y'', fullName = ''bob/y'', url = ''https://github.com/bob/y'',
              stars = 50, prCount = 1, isOwned = False, isPrivate = False,
              lastContributedAt = ''2024-01-15T08:00:00Z'' \<rparr>"

definition ex_priv :: Repository where
  "ex_priv = \<lparr> name = ''z'', fullName = ''carol/z'', url = ''https://github.com/carol/z'',
               stars = 7, prCount = 3, isOwned = False, isPrivate = True,
               lastContributedAt = ''2023-11-02T12:30:00Z'' \<rparr>"

definition ex_filter_config :: Config where
  "ex_filter_config =
     DEFAULT_CONFIG\<lparr> scope := ScopeOwn, include' := [''bob/y'', ''carol/z''],
                     exclude' := [''carol/z''] \<rparr>"

text \<open>
  A remote whose search succeeds for 2016 and fails for every other year, read at a time
  in 2016, so that an aggregation requests page 1 of 2016 and then page 1 of 2015.
\<close>

definition ex_env :: Env where
  "ex_env =
     \<lparr> searchIssues = (\<lambda>u y p. if y = 2016 then Inr [ex_pr1, ex_pr3] else Inl (ApiError 500)),
       repoApi = (\<lambda>f. Inr \<lparr> stargazers_count = Some 5, private' = None \<rparr>),
       parseDate = (\<lambda>s. None),
       toISOString = (\<lambda>t. ''2016-06-01T00:00:00.000Z''),
       getFullYear = (\<lambda>t. 2016),
       localeCompare = (\<lambda>a b. if a < b then - 1 else if a = b then 0 else 1),
       authenticatedUser = ''alice'' \<rparr>"

text \<open>
  A durable cache that holds \<open>alice/x\<close> with older values, an empty one, budgets of 0 and
  of 1, five hundred rollups with distinct names and a cache that holds them all, a
  remote whose metadata call fails, and a remote whose search succeeds throughout.
\<close>

definition ex_cached :: Repository where
  "ex_cached = \<lparr> name = ''x'', fullName = ''alice/x'', url = ''https://github.com/alice/x'',
                 stars = 9, prCount = 1, isOwned = False, isPrivate = True,
                 lastContributedAt = ''2020-01-01T00:00:00Z'' \<rparr>"

definition ex_cache :: Cache where
  "ex_cache = \<lparr> username = ''alice'', repos = [(''alice/x'', ex_cached)],
                fetchedAt = ''2020-01-02T00:00:00.000Z'' \<rparr>"

definition ex_empty_cache :: Cache where
  "ex_empty_cache = \<lparr> username = [], repos = [], fetchedAt = [] \<rparr>"

definition ex_config0 :: Config where
  "ex_config0 = DEFAULT_CONFIG\<lparr> starsLimit := Some 0 \<rparr>"

definition ex_repos500 :: "Repository list" where
  "ex_repos500 = map (\<lambda>i. ex_ext\<lparr> fullName := ''o/'' @ replicate i CHR ''r'' \<rparr>) [0..<500]"

definition ex_cache500 :: Cache where
  "ex_cache500 = \<lparr> username = ''alice'', repos = map (\<lambda>r. (fullName r, r)) ex_repos500,
                   fetchedAt = ''2020-01-02T00:00:00.000Z'' \<rparr>"

definition ex_config1 :: Config where
  "ex_config1 = DEFAULT_CONFIG\<lparr> starsLimit := Some 1 \<rparr>"

definition ex_env_down :: Env where
  "ex_env_down = ex_env\<lparr> repoApi := (\<lambda>f. Inl RequestFailed) \<rparr>"

definition ex_env_ok :: Env where
  "ex_env_ok =
     ex_env\<lparr> searchIssues := (\<lambda>u y p. if y = 2016 \<and> p = 1 then Inr [ex_pr1, ex_pr3] else Inr []),
             parseDate := (\<lambda>s. Some 0) \<rparr>"

definition ex_state_cached :: State where
  "ex_state_cached = initialState\<lparr> cacheFile := Some ex_cache \<rparr>"

text \<open>
  Module states whose memory cache was filled at time 0, for one user and for two, and
  the states reached from them: after a read at 10 minutes, after the revalidation that
  read started has settled (rejected, and fulfilled), after one more read, and after
  three reads for \<open>alice\<close>, \<open>bob\<close> and \<open>alice\<close> with nothing settled in between.
\<close>

definition ex_state_alice :: State where
  "ex_state_alice =
     initialState\<lparr> memoryCache := [''alice'' \<mapsto> \<lparr> data = Some [ex_rollup], fetchedAtMs = 0 \<rparr>] \<rparr>"

definition ex_state_two :: State where
  "ex_state_two =
     initialState\<lparr> memoryCache :=
       [''alice'' \<mapsto> \<lparr> data = Some [ex_rollup], fetchedAtMs = 0 \<rparr>,
        ''bob'' \<mapsto> \<lparr> data = Some [ex_ext], fetchedAtMs = 0 \<rparr>] \<rparr>"

definition ex_config_alice :: Config where
  "ex_config_alice = DEFAULT_CONFIG\<lparr> user := Some ''alice'' \<rparr>"

definition ex_config_bob :: Config where
  "ex_config_bob = DEFAULT_CONFIG\<lparr> user := Some ''bob'' \<rparr>"

definition ex_after_stale_read :: State where
  "ex_after_stale_read = snd (readMemoryCache ex_env 600000 DEFAULT_CONFIG ex_state_alice)"

definition ex_after_settle :: State where
  "ex_after_settle = settle ex_env 3 600000 600001 0 ex_after_stale_read"

definition ex_after_retry :: State where
  "ex_after_retry = snd (readMemoryCache ex_env 700000 DEFAULT_CONFIG ex_after_settle)"

definition ex_after_settle_ok :: State where
  "ex_after_settle_ok = settle ex_env_ok 3 600000 600001 0 ex_after_stale_read"

definition ex_interleaved :: State where
  "ex_interleaved =
     snd (readMemoryCache ex_env 600000 ex_config_alice
       (snd (readMemoryCache ex_env 600000 ex_config_bob
         (snd (readMemoryCache ex_env 600000 ex_config_alice ex_state_two)))))"

section \<open>Facts about the string primitives\<close>

lemma split_str_length: "length (split_str sep s) = Suc (length (filter (\<lambda>c. c = sep) s))"
  by (induction s) (auto split: list.splits)

lemma filter_take_le: "length (filter P (take n s)) \<le> length (filter P s)"
proof -
  have "length (filter P s) = length (filter P (take n s)) + length (filter P (drop n s))"
    by (metis append_take_drop_id filter_append length_append)
  then show ?thesis by simp
qed

lemma split_str_valid_length:
  assumes "isValidRepoUrl u"
  shows "5 \<le> length (split_str CHR ''/'' u)"
proof -
  let ?p = "''https://api.github.com/repos/''"
  from assms have "take (length ?p) u = ?p"
    by (simp add: isValidRepoUrl_def startsWith_def)
  then have "length (filter (\<lambda>c. c = CHR ''/'') (take (length ?p) u)) = 4"
    by simp
  then have "4 \<le> length (filter (\<lambda>c. c = CHR ''/'') u)"
    using filter_take_le [of "\<lambda>c. c = CHR ''/''" "length ?p" u] by simp
  then show ?thesis by (simp add: split_str_length)
qed

lemma parseRepoUrl_nonempty: "parseRepoUrl u \<noteq> Some []"
  by (simp add: parseRepoUrl_def Let_def)

text \<open>The read \<open>fullName.split("/")[1]\<close> of \<open>foldPR\<close> is in range.\<close>

lemma parseRepoUrl_two_parts:
  assumes "parseRepoUrl u = Some f"
  shows "2 \<le> length (split_str CHR ''/'' f)"
proof -
  from assms obtain a b where "f = a @ ''/'' @ b"
    by (auto simp: parseRepoUrl_def Let_def split: if_splits)
  then have "1 \<le> length (filter (\<lambda>c. c = CHR ''/'') f)" by simp
  then show ?thesis by (simp add: split_str_length)
qed



section \<open>Facts about the fold\<close>

lemma map_of_foldPR_other:
  "parseRepoUrl (repository_url p) \<noteq> Some f \<Longrightarrow> map_of (foldPR u m p) f = map_of m f"
  by (auto simp: foldPR_def Let_def update_conv' split: option.splits)

lemma map_of_foldPR_new:
  "parseRepoUrl (repository_url p) = Some f \<Longrightarrow> map_of m f = None \<Longrightarrow>
   \<exists>r. map_of (foldPR u m p) f = Some r \<and> prCount r = 1 \<and>
       lastContributedAt r = created_at p \<and> fullName r = f"
  using parseRepoUrl_nonempty [of "repository_url p"]
  by (auto simp: foldPR_def Let_def update_conv' split: option.splits)

lemma map_of_foldPR_existing:
  "parseRepoUrl (repository_url p) = Some f \<Longrightarrow> map_of m f = Some r \<Longrightarrow>
   \<exists>r'. map_of (foldPR u m p) f = Some r' \<and> prCount r' = prCount r + 1 \<and>
       lastContributedAt r' = max (lastContributedAt r) (created_at p) \<and>
       fullName r' = fullName r"
  using parseRepoUrl_nonempty [of "repository_url p"]
  by (auto simp: foldPR_def Let_def update_conv' max_def split: option.splits)

lemma distinct_foldPR: "distinct (map fst m) \<Longrightarrow> distinct (map fst (foldPR u m p))"
  by (auto simp: foldPR_def Let_def distinct_update split: option.splits)

lemma distinct_foldItems: "distinct (map fst m) \<Longrightarrow> distinct (map fst (foldItems u m prs))"
  unfolding foldItems_def
  by (induction prs arbitrary: m) (auto simp: distinct_foldPR)

lemma foldItems_snoc: "foldItems u m (prs @ [p]) = foldPR u (foldItems u m prs) p"
  by (simp add: foldItems_def)

lemma recordsFor_snoc:
  "recordsFor f (prs @ [p]) =
     (if parseRepoUrl (repository_url p) = Some f then recordsFor f prs @ [p] else recordsFor f prs)"
  by (simp add: recordsFor_def)

lemma foldItems_rollup:
  "(recordsFor f prs = [] \<longrightarrow> map_of (foldItems u [] prs) f = None) \<and>
   (recordsFor f prs \<noteq> [] \<longrightarrow>
      (\<exists>r. map_of (foldItems u [] prs) f = Some r \<and> fullName r = f \<and>
           prCount r = int (length (recordsFor f prs)) \<and>
           lastContributedAt r = Max (set (map created_at (recordsFor f prs)))))"
proof (induction prs rule: rev_induct)
  case Nil
  show ?case by (simp add: foldItems_def recordsFor_def)
next
  case (snoc p prs)
  show ?case
  proof (cases "parseRepoUrl (repository_url p) = Some f")
    case False
    then show ?thesis
      using snoc by (simp add: foldItems_snoc recordsFor_snoc map_of_foldPR_other)
  next
    case True
    show ?thesis
    proof (cases "recordsFor f prs = []")
      case True
      with snoc have "map_of (foldItems u [] prs) f = None" by simp
      from map_of_foldPR_new [OF \<open>parseRepoUrl (repository_url p) = Some f\<close> this, of u]
      show ?thesis
        using True \<open>parseRepoUrl (repository_url p) = Some f\<close>
        by (auto simp: foldItems_snoc recordsFor_snoc)
    next
      case False
      with snoc obtain r where r: "map_of (foldItems u [] prs) f = Some r" "fullName r = f"
        "prCount r = int (length (recordsFor f prs))"
        "lastContributedAt r = Max (set (map created_at (recordsFor f prs)))"
        by auto
      from map_of_foldPR_existing [OF \<open>parseRepoUrl (repository_url p) = Some f\<close> r(1), of u]
      obtain r' where r': "map_of (foldPR u (foldItems u [] prs) p) f = Some r'"
        "prCount r' = prCount r + 1"
        "lastContributedAt r' = max (lastContributedAt r) (created_at p)"
        "fullName r' = fullName r" by blast
      have "Max (set (map created_at (recordsFor f prs @ [p]))) =
            max (Max (set (map created_at (recordsFor f prs)))) (created_at p)"
        using False by (simp add: Max_insert max.commute)
      then show ?thesis
        using r r' \<open>parseRepoUrl (repository_url p) = Some f\<close>
        by (simp add: foldItems_snoc recordsFor_snoc)
    qed
  qed
qed

lemma foldPR_timestamp_mono:
  assumes "map_of m f = Some r"
  shows "\<exists>r'. map_of (foldPR u m p) f = Some r' \<and> lastContributedAt r \<le> lastContributedAt r'"
proof (cases "parseRepoUrl (repository_url p) = Some f")
  case True
  from map_of_foldPR_existing [OF True assms, of u] show ?thesis by auto
next
  case False
  then show ?thesis using assms by (simp add: map_of_foldPR_other)
qed

lemma ex_fold: "foldItems ''alice'' [] ex_prs = [(''alice/x'', ex_rollup)]"
  by code_simp

lemma ex_recordsFor: "recordsFor ''alice/x'' ex_prs = [ex_pr1, ex_pr3]"
  by code_simp

section \<open>Facts about the filter\<close>

lemma includeLoop_prefix:
  "\<exists>added. includeLoop incl fs ex all filtered = filtered @ added \<and>
     (\<forall>r \<in> set added. fullName r \<in> set incl \<and> fullName r \<notin> set ex \<and> fullName r \<notin> set fs
         \<and> r \<in> set all)"
proof (induction incl arbitrary: filtered)
  case Nil
  show ?case by simp
next
  case (Cons f rest)
  show ?case
  proof (cases "f \<notin> set fs \<and> f \<notin> set ex")
    case False
    from Cons [of filtered] obtain added where
      "includeLoop rest fs ex all filtered = filtered @ added"
      "\<forall>r \<in> set added. fullName r \<in> set rest \<and> fullName r \<notin> set ex \<and> fullName r \<notin> set fs \<and> r \<in> set all"
      by blast
    then show ?thesis using False
      by (intro exI [of _ added]) auto
  next
    case True
    show ?thesis
    proof (cases "find (\<lambda>r. fullName r = f) all")
      case None
      from Cons [of filtered] obtain added where
        "includeLoop rest fs ex all filtered = filtered @ added"
        "\<forall>r \<in> set added. fullName r \<in> set rest \<and> fullName r \<notin> set ex \<and> fullName r \<notin> set fs \<and> r \<in> set all"
        by blast
      then show ?thesis using True None
        by (intro exI [of _ added]) auto
    next
      case (Some repo)
      then have repo: "fullName repo = f" "repo \<in> set all"
        by (auto simp: find_Some_iff)
      from Cons [of "filtered @ [repo]"] obtain added where
        "includeLoop rest fs ex all (filtered @ [repo]) = (filtered @ [repo]) @ added"
        "\<forall>r \<in> set added. fullName r \<in> set rest \<and> fullName r \<notin> set ex \<and> fullName r \<notin> set fs \<and> r \<in> set all"
        by blast
      then show ?thesis using True Some repo
        by (intro exI [of _ "repo # added"]) auto
    qed
  qed
qed

lemma includeLoop_keeps: "r \<in> set filtered \<Longrightarrow> r \<in> set (includeLoop incl fs ex all filtered)"
  using includeLoop_prefix [of incl fs ex all filtered] by auto

lemma includeLoop_covers:
  "f \<in> set incl \<Longrightarrow> f \<notin> set ex \<Longrightarrow> f \<notin> set fs \<Longrightarrow> r \<in> set all \<Longrightarrow> fullName r = f \<Longrightarrow>
   f \<in> fullName ` set (includeLoop incl fs ex all filtered)"
proof (induction incl arbitrary: filtered)
  case Nil
  then show ?case by simp
next
  case (Cons g rest)
  show ?case
  proof (cases "g = f")
    case True
    from Cons.prems have "find (\<lambda>r. fullName r = f) all \<noteq> None"
      by (auto simp: find_None_iff)
    then obtain repo where Some: "find (\<lambda>r. fullName r = f) all = Some repo" by auto
    then have "fullName repo = f" by (auto simp: find_Some_iff)
    moreover have "repo \<in> set (includeLoop rest fs ex all (filtered @ [repo]))"
      by (rule includeLoop_keeps) simp
    ultimately show ?thesis using True Cons.prems Some by force
  next
    case False
    with Cons.prems have "f \<in> set rest" by simp
    from Cons.IH [OF this Cons.prems(2-5)] show ?thesis
      by (simp split: option.splits)
  qed
qed

lemma filterRepos_cases:
  assumes "r \<in> set (filterRepos rs config allRepos)"
  shows "(r \<in> set rs \<and> keepRepo config r) \<or>
         (r \<in> set allRepos \<and> fullName r \<in> set (include' config)
            \<and> fullName r \<notin> set (exclude' config))"
proof -
  obtain added where
    eq: "filterRepos rs config allRepos = filter (keepRepo config) rs @ added" and
    added: "\<forall>r \<in> set added. fullName r \<in> set (include' config)
              \<and> fullName r \<notin> set (exclude' config)
              \<and> fullName r \<notin> set (map fullName (filter (keepRepo config) rs))
              \<and> r \<in> set allRepos"
    unfolding filterRepos_def Let_def
    using includeLoop_prefix [of "include' config" "map fullName (filter (keepRepo config) rs)"
      "exclude' config" allRepos "filter (keepRepo config) rs"]
    by blast
  from assms eq have "r \<in> set (filter (keepRepo config) rs) \<or> r \<in> set added" by simp
  then show ?thesis
  proof
    assume "r \<in> set (filter (keepRepo config) rs)"
    then show ?thesis by simp
  next
    assume "r \<in> set added"
    with added show ?thesis by blast
  qed
qed

lemma keepRepo_not_excluded: "keepRepo config r \<Longrightarrow> fullName r \<notin> set (exclude' config)"
  by (simp add: keepRepo_def split: if_splits)

lemma keepRepo_listed:
  "fullName r \<in> set (include' config) \<Longrightarrow> fullName r \<notin> set (exclude' config) \<Longrightarrow> keepRepo config r"
  by (simp add: keepRepo_def)

lemma filterRepos_not_excluded:
  "r \<in> set (filterRepos rs config allRepos) \<Longrightarrow> fullName r \<notin> set (exclude' config)"
  using filterRepos_cases [of r rs config allRepos] keepRepo_not_excluded [of config r]
  by blast

lemma filterRepos_keeps_listed:
  assumes "r \<in> set rs" "fullName r \<in> set (include' config)" "fullName r \<notin> set (exclude' config)"
  shows "r \<in> set (filterRepos rs config allRepos)"
proof -
  have "r \<in> set (filter (keepRepo config) rs)"
    using assms by (simp add: keepRepo_listed)
  then show ?thesis
    unfolding filterRepos_def Let_def by (rule includeLoop_keeps)
qed

lemma filterRepos_draws_listed:
  assumes "r \<in> set allRepos" "fullName r \<in> set (include' config)" "fullName r \<notin> set (exclude' config)"
  shows "fullName r \<in> fullName ` set (filterRepos rs config allRepos)"
proof (cases "fullName r \<in> set (map fullName (filter (keepRepo config) rs))")
  case True
  then obtain r' where r': "r' \<in> set (filter (keepRepo config) rs)" "fullName r' = fullName r"
    by auto
  have "r' \<in> set (filterRepos rs config allRepos)"
    unfolding filterRepos_def Let_def by (rule includeLoop_keeps) (rule r'(1))
  then show ?thesis using r'(2) by (metis imageI)
next
  case False
  from includeLoop_covers [OF assms(2,3) False assms(1) refl]
  show ?thesis by (simp add: filterRepos_def Let_def)
qed

lemma filterRepos_all_kept:
  "r \<in> set (filterRepos rs config allRepos) \<Longrightarrow> keepRepo config r"
  using filterRepos_cases [of r rs config allRepos] keepRepo_listed [of r config]
  by blast

lemma includeLoop_idle:
  "\<forall>r \<in> set all. fullName r \<in> set fs \<Longrightarrow> includeLoop incl fs ex all filtered = filtered"
proof (induction incl arbitrary: filtered)
  case Nil
  show ?case by simp
next
  case (Cons f rest)
  have "f \<notin> set fs \<Longrightarrow> find (\<lambda>r. fullName r = f) all = None"
    using Cons.prems by (auto simp: find_None_iff)
  then show ?case using Cons by (auto split: option.splits)
qed

lemma filterRepos_fixed:
  "filterRepos (filterRepos rs config allRepos) config (filterRepos rs config allRepos)
     = filterRepos rs config allRepos"
proof -
  let ?out = "filterRepos rs config allRepos"
  have "filter (keepRepo config) ?out = ?out"
    by (simp add: filterRepos_all_kept)
  then show ?thesis
    using includeLoop_idle [of ?out "map fullName ?out" "include' config" "exclude' config" ?out]
    by (simp add: filterRepos_def [of ?out] Let_def)
qed

section \<open>The aggregation claims\<close>

text \<open>
  Claim C5. Fold any sequence of pull-request records into an empty map, as one
  aggregation does. Then every rollup of the result has as \<open>prCount\<close> the number of
  records of the sequence whose reference parses to the rollup's \<open>fullName\<close>, every
  repository with such a record has a rollup, and the records whose reference does not
  parse are skipped: folding the sequence is folding its parseable records alone.
\<close>

theorem prCount_counts_parseable_records:
  "(\<forall>r \<in> set (map snd (foldItems u [] prs)).
      prCount r = int (length (recordsFor (fullName r) prs))) \<and>
   (\<forall>f. recordsFor f prs \<noteq> [] \<longrightarrow> f \<in> fullName ` set (map snd (foldItems u [] prs))) \<and>
   foldItems u [] prs = foldItems u [] (filter (\<lambda>p. parseRepoUrl (repository_url p) \<noteq> None) prs)"
proof (intro conjI ballI allI impI)
  fix r assume "r \<in> set (map snd (foldItems u [] prs))"
  then obtain k where k: "(k, r) \<in> set (foldItems u [] prs)" by auto
  have "distinct (map fst (foldItems u [] prs))" by (simp add: distinct_foldItems)
  with k have m: "map_of (foldItems u [] prs) k = Some r" by simp
  with foldItems_rollup [of k prs u] have "recordsFor k prs \<noteq> []" by auto
  with foldItems_rollup [of k prs u] m
  show "prCount r = int (length (recordsFor (fullName r) prs))" by auto
next
  fix f assume "recordsFor f prs \<noteq> []"
  with foldItems_rollup [of f prs u] obtain r where
    "map_of (foldItems u [] prs) f = Some r" "fullName r = f" by auto
  then have "(f, r) \<in> set (foldItems u [] prs)" by (auto dest: map_of_SomeD)
  then have "r \<in> set (map snd (foldItems u [] prs))" by force
  with \<open>fullName r = f\<close> show "f \<in> fullName ` set (map snd (foldItems u [] prs))" by blast
next
  have "foldItems u m prs = foldItems u m (filter (\<lambda>p. parseRepoUrl (repository_url p) \<noteq> None) prs)" for m
    by (induction prs arbitrary: m) (auto simp: foldItems_def foldPR_def)
  then show "foldItems u [] prs = foldItems u [] (filter (\<lambda>p. parseRepoUrl (repository_url p) \<noteq> None) prs)" .
qed

theorem prCount_counts_parseable_records_witness:
  "ex_rollup \<in> set (map snd (foldItems ''alice'' [] ex_prs)) \<and>
   prCount ex_rollup = int (length (recordsFor (fullName ex_rollup) ex_prs)) \<and>
   recordsFor ''alice/x'' ex_prs = [ex_pr1, ex_pr3] \<and>
   parseRepoUrl (repository_url ex_pr2) = None \<and>
   foldItems ''alice'' [] ex_prs = foldItems ''alice'' [] [ex_pr1, ex_pr3]"
proof -
  have h: "ex_rollup \<in> set (map snd (foldItems ''alice'' [] ex_prs))"
    by (simp add: ex_fold)
  have p: "parseRepoUrl (repository_url ex_pr2) = None" by code_simp
  have f: "filter (\<lambda>p. parseRepoUrl (repository_url p) \<noteq> None) ex_prs = [ex_pr1, ex_pr3]"
    by code_simp
  note t = prCount_counts_parseable_records [of "''alice''" ex_prs]
  from t h have c: "prCount ex_rollup = int (length (recordsFor (fullName ex_rollup) ex_prs))"
    by blast
  from t f have s: "foldItems ''alice'' [] ex_prs = foldItems ''alice'' [] [ex_pr1, ex_pr3]"
    by simp
  from h c p s show ?thesis by (simp add: ex_recordsFor)
qed

text \<open>
  Claim C6. When at least one record of the sequence parses to the repository \<open>f\<close>, the
  rollup of \<open>f\<close> exists and its \<open>lastContributedAt\<close> is the greatest creation timestamp
  of those records in the lexicographic order of strings; and folding one more record
  into any map never lowers the \<open>lastContributedAt\<close> of a rollup that is in it.
\<close>

theorem lastContribution_is_maximum:
  "(recordsFor f prs \<noteq> [] \<longrightarrow>
      (\<exists>r. map_of (foldItems u [] prs) f = Some r \<and>
           lastContributedAt r = Max (set (map created_at (recordsFor f prs))))) \<and>
   (\<forall>r. map_of m f = Some r \<longrightarrow>
      (\<exists>r'. map_of (foldPR u m p) f = Some r' \<and> lastContributedAt r \<le> lastContributedAt r'))"
  using foldItems_rollup [of f prs u] foldPR_timestamp_mono [of m f _ u p]
  by blast

theorem lastContribution_is_maximum_witness:
  "recordsFor ''alice/x'' ex_prs \<noteq> [] \<and>
   map_of (foldItems ''alice'' [] ex_prs) ''alice/x'' = Some ex_rollup \<and>
   lastContributedAt ex_rollup = Max (set (map created_at (recordsFor ''alice/x'' ex_prs))) \<and>
   lastContributedAt ex_rollup = ''2024-03-01T10:00:00Z'' \<and>
   map_of (foldItems ''alice'' [] [ex_pr3]) ''alice/x'' \<noteq> None \<and>
   lastContributedAt (the (map_of (foldItems ''alice'' [] [ex_pr3]) ''alice/x''))
     \<le> lastContributedAt (the (map_of (foldPR ''alice'' (foldItems ''alice'' [] [ex_pr3]) ex_pr1) ''alice/x''))"
proof -
  have h: "recordsFor ''alice/x'' ex_prs \<noteq> []" by (simp add: ex_recordsFor)
  have e: "map_of (foldItems ''alice'' [] ex_prs) ''alice/x'' = Some ex_rollup"
    by (simp add: ex_fold)
  have s: "map_of (foldItems ''alice'' [] [ex_pr3]) ''alice/x'' \<noteq> None" by code_simp
  from lastContribution_is_maximum [of "''alice/x''" ex_prs "''alice''"
      "foldItems ''alice'' [] [ex_pr3]" ex_pr1] h e s
  show ?thesis by (auto simp: ex_rollup_def)
qed


section \<open>The projection claims\<close>

lemma ex_filter: "filterRepos [ex_rollup, ex_priv] ex_filter_config [ex_rollup, ex_ext, ex_priv] = [ex_rollup, ex_ext]"
  by code_simp

text \<open>
  Claim C7. For every list, configuration and full list: no repository of the output
  of \<open>filterRepos\<close> has its \<open>fullName\<close> in \<open>exclude\<close>, whether or not \<open>include\<close> lists it
  too; every repository of the input that \<open>include\<close> lists and \<open>exclude\<close> does not is
  in the output, whatever its scope and visibility; and every repository of the full
  list that \<open>include\<close> lists and \<open>exclude\<close> does not has its \<open>fullName\<close> in the output,
  drawn from the full list when the input does not hold it.
\<close>

theorem exclude_dominates_include:
  "(\<forall>r \<in> set (filterRepos rs config allRepos). fullName r \<notin> set (exclude' config)) \<and>
   (\<forall>r \<in> set rs. fullName r \<in> set (include' config) \<and> fullName r \<notin> set (exclude' config)
        \<longrightarrow> r \<in> set (filterRepos rs config allRepos)) \<and>
   (\<forall>r \<in> set allRepos. fullName r \<in> set (include' config) \<and> fullName r \<notin> set (exclude' config)
        \<longrightarrow> fullName r \<in> fullName ` set (filterRepos rs config allRepos))"
  using filterRepos_not_excluded [of _ rs config allRepos]
    filterRepos_keeps_listed [of _ rs config allRepos]
    filterRepos_draws_listed [of _ allRepos config rs]
  by blast

theorem exclude_dominates_include_witness:
  "filterRepos [ex_rollup, ex_priv] ex_filter_config [ex_rollup, ex_ext, ex_priv]
     = [ex_rollup, ex_ext] \<and>
   fullName ex_priv \<in> set (include' ex_filter_config) \<and>
   fullName ex_priv \<in> set (exclude' ex_filter_config) \<and>
   ex_priv \<notin> set (filterRepos [ex_rollup, ex_priv] ex_filter_config [ex_rollup, ex_ext, ex_priv]) \<and>
   ex_ext \<in> set [ex_rollup, ex_ext, ex_priv] \<and>
   fullName ex_ext \<in> set (include' ex_filter_config) \<and>
   fullName ex_ext \<notin> set (exclude' ex_filter_config) \<and>
   \<not> keepRepo (ex_filter_config\<lparr>include' := []\<rparr>) ex_ext \<and>
   fullName ex_ext \<in> fullName ` set (filterRepos [ex_rollup, ex_priv] ex_filter_config
                                          [ex_rollup, ex_ext, ex_priv])"
proof -
  note t = exclude_dominates_include
    [of "[ex_rollup, ex_priv]" ex_filter_config "[ex_rollup, ex_ext, ex_priv]"]
  have i: "fullName ex_ext \<in> set (include' ex_filter_config)"
    "fullName ex_ext \<notin> set (exclude' ex_filter_config)"
    "fullName ex_priv \<in> set (include' ex_filter_config)"
    "fullName ex_priv \<in> set (exclude' ex_filter_config)"
    by (simp_all add: ex_ext_def ex_priv_def ex_filter_config_def)
  have k: "\<not> keepRepo (ex_filter_config\<lparr>include' := []\<rparr>) ex_ext"
    by (simp add: keepRepo_def ex_ext_def ex_filter_config_def DEFAULT_CONFIG_def)
  have m: "ex_ext \<in> set [ex_rollup, ex_ext, ex_priv]" by simp
  from t m i(1,2) have a: "fullName ex_ext \<in> fullName ` set (filterRepos [ex_rollup, ex_priv]
      ex_filter_config [ex_rollup, ex_ext, ex_priv])" by blast
  from t i(4) have b: "ex_priv \<notin> set (filterRepos [ex_rollup, ex_priv] ex_filter_config
      [ex_rollup, ex_ext, ex_priv])" by blast
  from a b i k m show ?thesis by (simp add: ex_filter)
qed

text \<open>
  Claim C8. Applying \<open>filterRepos\<close> to its own output, with that output as the full
  list, returns the output unchanged: the same list, hence the same set.
\<close>

theorem filterRepos_idempotent:
  "filterRepos (filterRepos rs config allRepos) config (filterRepos rs config allRepos)
     = filterRepos rs config allRepos \<and>
   set (filterRepos (filterRepos rs config allRepos) config (filterRepos rs config allRepos))
     = set (filterRepos rs config allRepos)"
  by (simp add: filterRepos_fixed)

theorem filterRepos_idempotent_witness:
  "filterRepos [ex_rollup, ex_priv] ex_filter_config [ex_rollup, ex_ext, ex_priv]
     = [ex_rollup, ex_ext] \<and>
   filterRepos [ex_rollup, ex_ext] ex_filter_config [ex_rollup, ex_ext] = [ex_rollup, ex_ext]"
  using filterRepos_idempotent
    [of "[ex_rollup, ex_priv]" ex_filter_config "[ex_rollup, ex_ext, ex_priv]"]
  by (simp add: ex_filter)


section \<open>Failure of a page request\<close>

lemma fetchPRsForYear_failed_page:
  "fetchPRsForYear fuel env u year page tot m = (calls, res) \<Longrightarrow> (y, p) \<in> set calls \<Longrightarrow>
   searchIssues env u y p = Inl e \<Longrightarrow> res = Some (Inl e)"
proof (induction fuel arbitrary: page tot m calls res)
  case 0
  then show ?case by simp
next
  case (Suc fuel)
  show ?case
  proof (cases "searchIssues env u year page")
    case (Inl e')
    with Suc.prems show ?thesis by auto
  next
    case (Inr items)
    show ?thesis
    proof (cases "length items = 0 \<or> length items < perPage")
      case True
      with Suc.prems Inr show ?thesis by (auto simp: Let_def split: if_splits)
    next
      case False
      obtain calls' res' where rec:
        "fetchPRsForYear fuel env u year (page + 1) (tot + length items)
           (foldItems u m items) = (calls', res')"
        by (cases "fetchPRsForYear fuel env u year (page + 1) (tot + length items)
           (foldItems u m items)") 
      with Suc.prems(1) Inr False have eq: "calls = (year, page) # calls'" "res = res'"
        by (auto simp: Let_def)
      from Suc.prems(2,3) Inr eq have "(y, p) \<in> set calls'" by auto
      from Suc.IH [OF rec this Suc.prems(3)] eq show ?thesis by simp
    qed
  qed
qed

lemma yearsLoop_failed_page:
  "yearsLoop fuel env u years m = (calls, res) \<Longrightarrow> (y, p) \<in> set calls \<Longrightarrow>
   searchIssues env u y p = Inl e \<Longrightarrow> res = Some (Inl e)"
proof (induction years arbitrary: m calls res)
  case Nil
  then show ?case by simp
next
  case (Cons year years)
  obtain c1 r1 where first: "fetchPRsForYear fuel env u year 1 0 m = (c1, r1)"
    by (cases "fetchPRsForYear fuel env u year 1 0 m")
  note fp = fetchPRsForYear_failed_page [OF first _ Cons.prems(3)]
  show ?case
  proof (cases r1)
    case None
    with Cons.prems first fp show ?thesis by auto
  next
    case (Some r)
    show ?thesis
    proof (cases r)
      case (Inl e')
      with Cons.prems first fp Some show ?thesis by auto
    next
      case (Inr cm)
      obtain count m' where cm: "cm = (count, m')" by (cases cm)
      obtain c2 r2 where rest: "yearsLoop fuel env u years m' = (c2, r2)"
        by (cases "yearsLoop fuel env u years m'")
      from Cons.prems(1) first Some Inr cm rest have eq: "calls = c1 @ c2" "res = r2"
        by auto
      have "(y, p) \<notin> set c1" using fp Some Inr by auto
      with Cons.prems(2) eq have "(y, p) \<in> set c2" by simp
      from Cons.IH [OF rest this Cons.prems(3)] eq show ?thesis by simp
    qed
  qed
qed

lemma fetchContributedRepos_failed_page:
  assumes "fetchContributedRepos fuel env u currentYear = (calls, res)"
    and "(y, p) \<in> set calls" and "searchIssues env u y p = Inl e"
  shows "res = Some (Inl e)"
proof -
  obtain c r where yl: "yearsLoop fuel env u (rev [startYear..currentYear]) [] = (c, r)"
    by (cases "yearsLoop fuel env u (rev [startYear..currentYear]) []")
  with assms(1) have "calls = c"
    by (auto simp: fetchContributedRepos_def split: option.splits sum.splits)
  with yearsLoop_failed_page [OF yl _ assms(3)] assms(2) have "r = Some (Inl e)" by simp
  with assms(1) yl show ?thesis by (simp add: fetchContributedRepos_def)
qed

lemma ex_fetchAndCache_failed:
  "fetchAndCache ex_env 3 0 1 ''alice'' DEFAULT_CONFIG initialState
     = (([(2016, 1), (2015, 1)], []), Some (Inl (ApiError 500)), initialState)"
  by (simp add: fetchAndCache_def loadCache_def initialState_def isCacheStale_def Let_def
      fetchContributedRepos_def startYear_def ex_env_def upto.simps perPage_def
      numeral_3_eq_3)

text \<open>
  Claim C9. Take any run of \<open>fetchAndCache\<close> and any page request it made. If that
  request failed with the error \<open>e\<close>, then the aggregation \<open>fetchContributedRepos\<close>
  failed with \<open>e\<close>, the run as a whole failed with \<open>e\<close> and returned no list, it made no
  metadata call, and it left the state as it found it: neither \<open>memoryCache\<close> nor the
  cache file holds anything of the rollups folded before the failure.
\<close>

theorem failed_page_aborts_aggregation:
  assumes "fetchAndCache env fuel t0 t1 u config s = ((pages, calls), res, s')"
    and "(y, p) \<in> set pages" and "searchIssues env u y p = Inl e"
  shows "fetchContributedRepos fuel env u (getFullYear env t0) = (pages, Some (Inl e)) \<and>
         res = Some (Inl e) \<and> calls = [] \<and> s' = s"
proof -
  let ?cache = "loadCache s"
  show ?thesis
  proof (cases "\<not> isCacheStale env t0 ?cache \<and> username ?cache = u
                  \<and> length (map fst (repos ?cache)) > 0")
    case True
    with assms(1) have "pages = []"
      by (auto simp: fetchAndCache_def Let_def split: prod.splits)
    with assms(2) show ?thesis by simp
  next
    case False
    obtain c r where fc: "fetchContributedRepos fuel env u (getFullYear env t0) = (c, r)"
      by (cases "fetchContributedRepos fuel env u (getFullYear env t0)")
    from assms(1) False fc have "pages = c"
      by (auto simp: fetchAndCache_def Let_def split: prod.splits option.splits sum.splits)
    with fetchContributedRepos_failed_page [OF fc _ assms(3)] assms(2)
    have r: "r = Some (Inl e)" by simp
    with assms(1) False fc \<open>pages = c\<close> show ?thesis
      by (auto simp: fetchAndCache_def Let_def)
  qed
qed

theorem failed_page_aborts_aggregation_witness:
  "fetchAndCache ex_env 3 0 1 ''alice'' DEFAULT_CONFIG initialState
     = (([(2016, 1), (2015, 1)], []), Some (Inl (ApiError 500)), initialState) \<and>
   (2015, 1) \<in> set [(2016, 1), (2015, 1 :: nat)] \<and>
   searchIssues ex_env ''alice'' 2015 1 = Inl (ApiError 500) \<and>
   searchIssues ex_env ''alice'' 2016 1 = Inr [ex_pr1, ex_pr3] \<and>
   fetchContributedRepos 3 ex_env ''alice'' (getFullYear ex_env 0)
     = ([(2016, 1), (2015, 1)], Some (Inl (ApiError 500)))"
proof -
  have h: "searchIssues ex_env ''alice'' 2015 1 = Inl (ApiError 500)"
    "searchIssues ex_env ''alice'' 2016 1 = Inr [ex_pr1, ex_pr3]"
    by (simp_all add: ex_env_def)
  have m: "(2015, 1) \<in> set [(2016, 1), (2015, 1 :: nat)]" by simp
  from failed_page_aborts_aggregation [OF ex_fetchAndCache_failed m h(1)] h m
  show ?thesis by (simp add: ex_fetchAndCache_failed)
qed


section \<open>Facts about the enrichment pass\<close>

text \<open>
  The two parts of \<open>fetchStarsForRepos\<close> cover \<open>repos\<close> and do not meet, and the array
  after the call holds each object as its part's loop leaves it.
\<close>

lemma cachedRepos_toFetch_partition:
  "set (cachedRepos rs cache) \<union> set (toFetch rs cache) = set rs"
  "set (cachedRepos rs cache) \<inter> set (toFetch rs cache) = {}"
  by (auto simp: cachedRepos_def toFetch_def)

lemma fetchStarsForRepos_cached:
  "r \<in> set (cachedRepos rs cache) \<Longrightarrow>
   \<exists>cached. map_of (repos cache) (fullName r) = Some cached \<and>
     useCached r cached \<in> set (fst (fetchStarsForRepos env rs cache))"
  by (force simp: cachedRepos_def fetchStarsForRepos_def Let_def)

lemma fetchStarsForRepos_fetched:
  "r \<in> set (toFetch rs cache) \<Longrightarrow> useFetched env r \<in> set (fst (fetchStarsForRepos env rs cache))"
  by (force simp: toFetch_def fetchStarsForRepos_def Let_def)

lemma set_insert_by: "set (insert_by cmp x ys) = insert x (set ys)"
  by (induction ys) auto

lemma length_insert_by: "length (insert_by cmp x ys) = Suc (length ys)"
  by (induction ys) auto

lemma set_sort_by: "set (sort_by cmp xs) = set xs"
  by (induction xs) (auto simp: sort_by_def set_insert_by)

lemma length_sort_by: "length (sort_by cmp xs) = length xs"
  by (induction xs) (auto simp: sort_by_def length_insert_by)

lemma distinct_map_insert_by:
  "distinct (map f (insert_by cmp x ys)) \<longleftrightarrow> f x \<notin> f ` set ys \<and> distinct (map f ys)"
  by (induction ys) (auto simp: set_insert_by)

lemma distinct_map_sort_by: "distinct (map f (sort_by cmp xs)) \<longleftrightarrow> distinct (map f xs)"
proof (induction xs)
  case Nil
  show ?case by (simp add: sort_by_def)
next
  case (Cons x xs)
  have "sort_by cmp (x # xs) = insert_by cmp x (sort_by cmp xs)" by (simp add: sort_by_def)
  then show ?case using Cons by (simp add: distinct_map_insert_by set_sort_by)
qed

lemma relIndex_le: "relIndex len i \<le> len"
  by (auto simp: relIndex_def)

lemma relIndex_pos: "0 \<le> i \<Longrightarrow> relIndex len i = min (nat i) len"
  by (simp add: relIndex_def)

lemma slice_0: "slice xs 0 n = take (relIndex (length xs) n) xs"
  by (simp add: slice_def relIndex_def)

lemma slice_sliceFrom: "slice xs 0 n @ sliceFrom xs n = xs"
  by (simp add: slice_0 sliceFrom_def)

lemma topRepos_otherRepos: "topRepos config rs @ otherRepos config rs = rankRepos rs"
  by (simp add: topRepos_def otherRepos_def slice_sliceFrom)

lemma set_topRepos: "set (topRepos config rs) \<subseteq> set rs"
proof -
  have "set (topRepos config rs) \<subseteq> set (rankRepos rs)"
    by (simp add: topRepos_def slice_0 set_take_subset)
  then show ?thesis by (simp add: rankRepos_def set_sort_by)
qed

lemma length_topRepos:
  "0 < effectiveStarsLimit config \<Longrightarrow>
   length (topRepos config rs) = min (nat (effectiveStarsLimit config)) (length rs)"
  by (simp add: topRepos_def slice_0 relIndex_pos rankRepos_def length_sort_by)

lemma liveFetches_eq:
  "liveFetches env config rs cache = map fullName (toFetch (topRepos config rs) cache)"
  by (simp add: liveFetches_def enrichment_def fetchStarsForRepos_def Let_def)

lemma enriched_eq:
  "enriched env config rs cache =
     map (\<lambda>repo. case map_of (repos cache) (fullName repo) of
                    Some cached \<Rightarrow> useCached repo cached
                  | None \<Rightarrow> useFetched env repo) (topRepos config rs)
     @ map (\<lambda>repo. case map_of (repos (fst (snd (enrichment env config rs cache)))) (fullName repo) of
                    Some cached \<Rightarrow> repo\<lparr>stars := stars cached, isPrivate := isPrivate cached\<rparr>
                  | None \<Rightarrow> repo) (otherRepos config rs)"
  by (simp add: enriched_def enrichment_def fetchStarsForRepos_def Let_def)

lemma enriched_nth:
  assumes "i < length (topRepos config rs)"
  shows "enriched env config rs cache ! i =
           (case map_of (repos cache) (fullName (topRepos config rs ! i)) of
              Some cached \<Rightarrow> useCached (topRepos config rs ! i) cached
            | None \<Rightarrow> useFetched env (topRepos config rs ! i))"
  using assms by (simp add: enriched_eq nth_append)

lemma length_enriched: "length (enriched env config rs cache) = length rs"
proof -
  have "length (enriched env config rs cache)
          = length (topRepos config rs @ otherRepos config rs)"
    by (simp add: enriched_eq)
  then show ?thesis by (simp add: topRepos_otherRepos rankRepos_def length_sort_by)
qed

lemma length_toFetch_le: "length (toFetch rs cache) \<le> length rs"
  by (simp add: toFetch_def)

lemma toFetch_all: "\<forall>r \<in> set rs. map_of (repos cache) (fullName r) = None \<Longrightarrow> toFetch rs cache = rs"
  by (simp add: toFetch_def)

lemma toFetch_none: "\<forall>r \<in> set rs. map_of (repos cache) (fullName r) \<noteq> None \<Longrightarrow> toFetch rs cache = []"
  by (simp add: toFetch_def)

lemma other_not_fetched:
  assumes "distinct (map fullName rs)" "r \<in> set (otherRepos config rs)"
  shows "fullName r \<notin> set (liveFetches env config rs cache)"
proof -
  have "distinct (map fullName (topRepos config rs @ otherRepos config rs))"
    using assms(1) by (simp add: topRepos_otherRepos rankRepos_def distinct_map_sort_by)
  then have "fullName ` set (topRepos config rs) \<inter> fullName ` set (otherRepos config rs) = {}"
    by simp
  moreover have "set (liveFetches env config rs cache) \<subseteq> fullName ` set (topRepos config rs)"
    by (auto simp: liveFetches_eq toFetch_def)
  ultimately show ?thesis using assms(2) by blast
qed

lemma ex_rank3: "rankRepos [ex_rollup, ex_ext, ex_priv] = [ex_priv, ex_rollup, ex_ext]"
  by code_simp

lemma length_ex_repos500: "length ex_repos500 = 500"
  by (simp add: ex_repos500_def)

lemma ex_cache500_covers: "r \<in> set ex_repos500 \<Longrightarrow> map_of (repos ex_cache500) (fullName r) \<noteq> None"
proof -
  assume "r \<in> set ex_repos500"
  then have "fullName r \<in> fst ` set (map (\<lambda>r. (fullName r, r)) ex_repos500)" by force
  then show ?thesis by (simp add: ex_cache500_def map_of_eq_None_iff)
qed

lemma distinct_ex_repos500: "distinct (map fullName ex_repos500)"
proof -
  have "inj_on (\<lambda>i. ''o/'' @ replicate i CHR ''r'') (set [0..<500])"
    by (rule inj_onI) (metis append_eq_append_conv length_replicate)
  then have "distinct (map (\<lambda>i. ''o/'' @ replicate i CHR ''r'') [0..<500])"
    by (simp add: distinct_map)
  moreover have "map fullName ex_repos500 = map (\<lambda>i. ''o/'' @ replicate i CHR ''r'') [0..<500]"
    by (simp add: ex_repos500_def)
  ultimately show ?thesis by simp
qed

lemma ex_top2: "topRepos DEFAULT_CONFIG [ex_rollup, ex_ext] = [ex_rollup, ex_ext]"
  by code_simp

lemma ex_fullName:
  "map_of (repos ex_cache) ''alice/x'' = Some ex_cached"
  "map_of (repos ex_cache) ''bob/y'' = None"
  "fullName ex_rollup = ''alice/x''" "fullName ex_ext = ''bob/y''"
  by (simp_all add: ex_cache_def ex_rollup_def ex_ext_def)

lemma ex_live2: "liveFetches ex_env DEFAULT_CONFIG [ex_rollup, ex_ext] ex_cache = [''bob/y'']"
  by code_simp

lemma ex_run_cached:
  "fst (snd (fetchAndCache ex_env_ok 3 100000000 100000001 ''alice'' DEFAULT_CONFIG ex_state_cached))
     = Some (Inr [useCached ex_rollup ex_cached])"
  by (simp add: fetchAndCache_def loadCache_def initialState_def isCacheStale_def Let_def
      fetchContributedRepos_def startYear_def ex_env_def ex_env_ok_def upto.simps perPage_def
      numeral_3_eq_3 ex_state_cached_def ex_cache_def CACHE_TTL_MS_def foldItems_def)
   code_simp

section \<open>The enrichment claims\<close>

text \<open>
  Claim C1, as the code has it. The claim says that every rollup of the hot set is
  fetched live even when the durable cache holds its \<open>fullName\<close>, the cached value
  serving only when the fetch fails. \<open>fetchStarsForRepos\<close> does the opposite: a hot-set
  rollup is fetched live exactly when the cache has no entry for it. For the rollup at
  any position of the hot set: when the cache holds its \<open>fullName\<close>, no live call is made
  for that name and after the pass its \<open>stars\<close>, \<open>isOwned\<close>, \<open>isPrivate\<close> and
  \<open>lastContributedAt\<close> are those of the cached entry, each stated field by field; when
  it does not, a live call is made, its \<open>stars\<close> and \<open>isPrivate\<close> are those
  \<open>fetchRepoData\<close> returns, its \<open>isOwned\<close> and \<open>lastContributedAt\<close> stay as the
  aggregation set them, and a failed call gives 0 stars and not private.
\<close>

theorem hot_set_fetched_iff_uncached:
  assumes "i < length (topRepos config rs)"
  shows "(case map_of (repos cache) (fullName (topRepos config rs ! i)) of
            Some cached \<Rightarrow>
              fullName (topRepos config rs ! i) \<notin> set (liveFetches env config rs cache) \<and>
              stars (enriched env config rs cache ! i) = stars cached \<and>
              isOwned (enriched env config rs cache ! i) = isOwned cached \<and>
              isPrivate (enriched env config rs cache ! i) = isPrivate cached \<and>
              lastContributedAt (enriched env config rs cache ! i) = lastContributedAt cached \<and>
              enriched env config rs cache ! i = useCached (topRepos config rs ! i) cached
          | None \<Rightarrow>
              fullName (topRepos config rs ! i) \<in> set (liveFetches env config rs cache) \<and>
              stars (enriched env config rs cache ! i)
                = fst (fetchRepoData env (fullName (topRepos config rs ! i))) \<and>
              isPrivate (enriched env config rs cache ! i)
                = snd (fetchRepoData env (fullName (topRepos config rs ! i))) \<and>
              isOwned (enriched env config rs cache ! i) = isOwned (topRepos config rs ! i) \<and>
              lastContributedAt (enriched env config rs cache ! i)
                = lastContributedAt (topRepos config rs ! i) \<and>
              enriched env config rs cache ! i = useFetched env (topRepos config rs ! i) \<and>
              (\<forall>e. repoApi env (fullName (topRepos config rs ! i)) = Inl e \<longrightarrow>
                 stars (enriched env config rs cache ! i) = 0 \<and>
                 \<not> isPrivate (enriched env config rs cache ! i)))"
proof (cases "map_of (repos cache) (fullName (topRepos config rs ! i))")
  case None
  from assms have "topRepos config rs ! i \<in> set (topRepos config rs)" by simp
  with None have "topRepos config rs ! i \<in> set (toFetch (topRepos config rs) cache)"
    by (simp add: toFetch_def)
  then have live: "fullName (topRepos config rs ! i) \<in> set (liveFetches env config rs cache)"
    by (simp add: liveFetches_eq)
  have eq: "enriched env config rs cache ! i = useFetched env (topRepos config rs ! i)"
    using None by (simp add: enriched_nth [OF assms])
  have fields:
    "stars (useFetched env (topRepos config rs ! i))
       = fst (fetchRepoData env (fullName (topRepos config rs ! i)))"
    "isPrivate (useFetched env (topRepos config rs ! i))
       = snd (fetchRepoData env (fullName (topRepos config rs ! i)))"
    "isOwned (useFetched env (topRepos config rs ! i)) = isOwned (topRepos config rs ! i)"
    "lastContributedAt (useFetched env (topRepos config rs ! i))
       = lastContributedAt (topRepos config rs ! i)"
    by (simp_all add: useFetched_def Let_def)
  have failed: "repoApi env (fullName (topRepos config rs ! i)) = Inl e \<Longrightarrow>
      stars (useFetched env (topRepos config rs ! i)) = 0 \<and>
      \<not> isPrivate (useFetched env (topRepos config rs ! i))" for e
    by (simp add: useFetched_def fetchRepoData_def Let_def)
  from live eq fields failed show ?thesis using None by simp
next
  case (Some cached)
  have live: "fullName (topRepos config rs ! i) \<notin> set (liveFetches env config rs cache)"
    using Some by (auto simp: liveFetches_eq toFetch_def)
  have eq: "enriched env config rs cache ! i = useCached (topRepos config rs ! i) cached"
    using Some by (simp add: enriched_nth [OF assms])
  have fields:
    "stars (useCached (topRepos config rs ! i) cached) = stars cached"
    "isOwned (useCached (topRepos config rs ! i) cached) = isOwned cached"
    "isPrivate (useCached (topRepos config rs ! i) cached) = isPrivate cached"
    "lastContributedAt (useCached (topRepos config rs ! i) cached) = lastContributedAt cached"
    by (simp_all add: useCached_def)
  from live eq fields show ?thesis using Some by simp
qed

text \<open>
  The claim C1 as stated fails: \<open>alice/x\<close> is in the hot set and in the cache, the
  remote would answer its metadata call with 5 stars, and yet no call is made for it
  and it gets the 9 stars of the cache.
\<close>

theorem hot_set_refetch_counterexample:
  "topRepos DEFAULT_CONFIG [ex_rollup, ex_ext] ! 0 = ex_rollup \<and>
   map_of (repos ex_cache) (fullName ex_rollup) = Some ex_cached \<and>
   repoApi ex_env (fullName ex_rollup) = Inr \<lparr> stargazers_count = Some 5, private' = None \<rparr> \<and>
   fullName ex_rollup \<notin> set (liveFetches ex_env DEFAULT_CONFIG [ex_rollup, ex_ext] ex_cache) \<and>
   stars (enriched ex_env DEFAULT_CONFIG [ex_rollup, ex_ext] ex_cache ! 0) = 9"
proof -
  have "enriched ex_env DEFAULT_CONFIG [ex_rollup, ex_ext] ex_cache ! 0
          = useCached ex_rollup ex_cached"
    by (simp add: enriched_nth ex_top2 ex_fullName)
  then have "stars (enriched ex_env DEFAULT_CONFIG [ex_rollup, ex_ext] ex_cache ! 0) = 9"
    by (simp add: useCached_def ex_cached_def)
  moreover have "map_of (repos ex_cache) (fullName ex_rollup) = Some ex_cached"
    by (simp add: ex_fullName)
  moreover have "repoApi ex_env (fullName ex_rollup)
                   = Inr \<lparr> stargazers_count = Some 5, private' = None \<rparr>"
    by (simp add: ex_env_def)
  moreover have "fullName ex_rollup \<notin> set (liveFetches ex_env DEFAULT_CONFIG [ex_rollup, ex_ext] ex_cache)"
    by (simp add: ex_live2 ex_fullName)
  ultimately show ?thesis by (simp add: ex_top2)
qed

theorem hot_set_fetched_iff_uncached_witness:
  "0 < length (topRepos DEFAULT_CONFIG [ex_rollup, ex_ext]) \<and>
   topRepos DEFAULT_CONFIG [ex_rollup, ex_ext] ! 0 = ex_rollup \<and>
   map_of (repos ex_cache) (fullName (topRepos DEFAULT_CONFIG [ex_rollup, ex_ext] ! 0))
     = Some ex_cached \<and>
   fullName (topRepos DEFAULT_CONFIG [ex_rollup, ex_ext] ! 0)
     \<notin> set (liveFetches ex_env DEFAULT_CONFIG [ex_rollup, ex_ext] ex_cache) \<and>
   stars ex_rollup = 0 \<and> isOwned ex_rollup \<and> \<not> isPrivate ex_rollup \<and>
   lastContributedAt ex_rollup = ''2024-03-01T10:00:00Z'' \<and>
   stars (enriched ex_env DEFAULT_CONFIG [ex_rollup, ex_ext] ex_cache ! 0) = 9 \<and>
   \<not> isOwned (enriched ex_env DEFAULT_CONFIG [ex_rollup, ex_ext] ex_cache ! 0) \<and>
   isPrivate (enriched ex_env DEFAULT_CONFIG [ex_rollup, ex_ext] ex_cache ! 0) \<and>
   lastContributedAt (enriched ex_env DEFAULT_CONFIG [ex_rollup, ex_ext] ex_cache ! 0)
     = ''2020-01-01T00:00:00Z'' \<and>
   enriched ex_env DEFAULT_CONFIG [ex_rollup, ex_ext] ex_cache ! 0 = useCached ex_rollup ex_cached \<and>
   1 < length (topRepos DEFAULT_CONFIG [ex_rollup, ex_ext]) \<and>
   topRepos DEFAULT_CONFIG [ex_rollup, ex_ext] ! 1 = ex_ext \<and>
   map_of (repos ex_cache) (fullName (topRepos DEFAULT_CONFIG [ex_rollup, ex_ext] ! 1)) = None \<and>
   fullName (topRepos DEFAULT_CONFIG [ex_rollup, ex_ext] ! 1)
     \<in> set (liveFetches ex_env DEFAULT_CONFIG [ex_rollup, ex_ext] ex_cache) \<and>
   stars ex_ext = 50 \<and>
   stars (enriched ex_env DEFAULT_CONFIG [ex_rollup, ex_ext] ex_cache ! 1) = 5 \<and>
   \<not> isPrivate (enriched ex_env DEFAULT_CONFIG [ex_rollup, ex_ext] ex_cache ! 1) \<and>
   \<not> isOwned (enriched ex_env DEFAULT_CONFIG [ex_rollup, ex_ext] ex_cache ! 1) \<and>
   lastContributedAt (enriched ex_env DEFAULT_CONFIG [ex_rollup, ex_ext] ex_cache ! 1)
     = ''2024-01-15T08:00:00Z'' \<and>
   repoApi ex_env_down ''bob/y'' = Inl RequestFailed \<and>
   stars (enriched ex_env_down DEFAULT_CONFIG [ex_rollup, ex_ext] ex_cache ! 1) = 0 \<and>
   \<not> isPrivate (enriched ex_env_down DEFAULT_CONFIG [ex_rollup, ex_ext] ex_cache ! 1)"
proof -
  have l: "0 < length (topRepos DEFAULT_CONFIG [ex_rollup, ex_ext])"
    "1 < length (topRepos DEFAULT_CONFIG [ex_rollup, ex_ext])"
    by (simp_all add: ex_top2)
  have c: "map_of (repos ex_cache) (fullName (topRepos DEFAULT_CONFIG [ex_rollup, ex_ext] ! 0))
     = Some ex_cached"
    "map_of (repos ex_cache) (fullName (topRepos DEFAULT_CONFIG [ex_rollup, ex_ext] ! 1)) = None"
    by (simp_all add: ex_top2 ex_fullName)
  have d: "repoApi ex_env_down ''bob/y'' = Inl RequestFailed"
    by (simp add: ex_env_down_def)
  have n: "fullName (topRepos DEFAULT_CONFIG [ex_rollup, ex_ext] ! 1) = ''bob/y''"
    "topRepos DEFAULT_CONFIG [ex_rollup, ex_ext] ! 0 = ex_rollup"
    "topRepos DEFAULT_CONFIG [ex_rollup, ex_ext] ! 1 = ex_ext"
    by (simp_all add: ex_top2 ex_fullName)
  have v: "stars ex_rollup = 0" "isOwned ex_rollup" "\<not> isPrivate ex_rollup"
    "lastContributedAt ex_rollup = ''2024-03-01T10:00:00Z''" "stars ex_ext = 50"
    by (simp_all add: ex_rollup_def ex_ext_def)
  have w: "\<not> isOwned ex_ext" "lastContributedAt ex_ext = ''2024-01-15T08:00:00Z''"
    by (simp_all add: ex_ext_def)
  have f: "fetchRepoData ex_env (fullName ex_ext) = (5, False)"
    by (simp add: fetchRepoData_def ex_env_def)
  from hot_set_fetched_iff_uncached [OF l(1), where cache = ex_cache and env = ex_env] c(1) n(2)
  have a0: "fullName (topRepos DEFAULT_CONFIG [ex_rollup, ex_ext] ! 0)
     \<notin> set (liveFetches ex_env DEFAULT_CONFIG [ex_rollup, ex_ext] ex_cache)"
    "stars (enriched ex_env DEFAULT_CONFIG [ex_rollup, ex_ext] ex_cache ! 0) = stars ex_cached"
    "isOwned (enriched ex_env DEFAULT_CONFIG [ex_rollup, ex_ext] ex_cache ! 0) = isOwned ex_cached"
    "isPrivate (enriched ex_env DEFAULT_CONFIG [ex_rollup, ex_ext] ex_cache ! 0)
       = isPrivate ex_cached"
    "lastContributedAt (enriched ex_env DEFAULT_CONFIG [ex_rollup, ex_ext] ex_cache ! 0)
       = lastContributedAt ex_cached"
    "enriched ex_env DEFAULT_CONFIG [ex_rollup, ex_ext] ex_cache ! 0 = useCached ex_rollup ex_cached"
    by auto
  have a0v: "stars (enriched ex_env DEFAULT_CONFIG [ex_rollup, ex_ext] ex_cache ! 0) = 9"
    "\<not> isOwned (enriched ex_env DEFAULT_CONFIG [ex_rollup, ex_ext] ex_cache ! 0)"
    "isPrivate (enriched ex_env DEFAULT_CONFIG [ex_rollup, ex_ext] ex_cache ! 0)"
    "lastContributedAt (enriched ex_env DEFAULT_CONFIG [ex_rollup, ex_ext] ex_cache ! 0)
       = ''2020-01-01T00:00:00Z''"
    unfolding a0(2-5) by (simp_all add: ex_cached_def)
  from hot_set_fetched_iff_uncached [OF l(2), where cache = ex_cache and env = ex_env] c(2)
  have a1: "fullName (topRepos DEFAULT_CONFIG [ex_rollup, ex_ext] ! 1)
     \<in> set (liveFetches ex_env DEFAULT_CONFIG [ex_rollup, ex_ext] ex_cache)"
    "stars (enriched ex_env DEFAULT_CONFIG [ex_rollup, ex_ext] ex_cache ! 1)
       = fst (fetchRepoData ex_env (fullName (topRepos DEFAULT_CONFIG [ex_rollup, ex_ext] ! 1)))"
    "isPrivate (enriched ex_env DEFAULT_CONFIG [ex_rollup, ex_ext] ex_cache ! 1)
       = snd (fetchRepoData ex_env (fullName (topRepos DEFAULT_CONFIG [ex_rollup, ex_ext] ! 1)))"
    "isOwned (enriched ex_env DEFAULT_CONFIG [ex_rollup, ex_ext] ex_cache ! 1)
       = isOwned (topRepos DEFAULT_CONFIG [ex_rollup, ex_ext] ! 1)"
    "lastContributedAt (enriched ex_env DEFAULT_CONFIG [ex_rollup, ex_ext] ex_cache ! 1)
       = lastContributedAt (topRepos DEFAULT_CONFIG [ex_rollup, ex_ext] ! 1)"
    by auto
  have a1v: "stars (enriched ex_env DEFAULT_CONFIG [ex_rollup, ex_ext] ex_cache ! 1) = 5"
    "\<not> isPrivate (enriched ex_env DEFAULT_CONFIG [ex_rollup, ex_ext] ex_cache ! 1)"
    "\<not> isOwned (enriched ex_env DEFAULT_CONFIG [ex_rollup, ex_ext] ex_cache ! 1)"
    "lastContributedAt (enriched ex_env DEFAULT_CONFIG [ex_rollup, ex_ext] ex_cache ! 1)
       = ''2024-01-15T08:00:00Z''"
    unfolding a1(2-5) n(3) f by (simp_all add: w)
  from hot_set_fetched_iff_uncached [OF l(2), where cache = ex_cache and env = ex_env_down] c(2) d n(1)
  have a2: "stars (enriched ex_env_down DEFAULT_CONFIG [ex_rollup, ex_ext] ex_cache ! 1) = 0"
    "\<not> isPrivate (enriched ex_env_down DEFAULT_CONFIG [ex_rollup, ex_ext] ex_cache ! 1)"
    by auto
  from l c d n(2,3) v a0(1,6) a0v a1(1) a1v a2 show ?thesis by simp
qed

text \<open>
  Claim C4, as the code has it. The budget is \<open>config.starsLimit || 20\<close>, so an absent
  budget and the budget 0 both mean 20. For every list, cache and configuration whose
  budget is positive: the pass makes at most that many live metadata calls, whatever
  the length of the list; every call it makes is for a rollup of the hot set that the
  durable cache does not hold, so no rollup beyond the hot set is fetched (with
  distinct names, no name beyond the hot set is among the calls); and for 500 rollups
  and the budget 20 the calls are exactly 20 when the cache holds no rollup of the hot
  set.
\<close>

theorem live_fetches_within_budget:
  assumes "0 < effectiveStarsLimit config"
  shows "length (liveFetches env config rs cache) \<le> nat (effectiveStarsLimit config) \<and>
         liveFetches env config rs cache = map fullName (toFetch (topRepos config rs) cache) \<and>
         (distinct (map fullName rs) \<longrightarrow>
            (\<forall>r \<in> set (otherRepos config rs).
               fullName r \<notin> set (liveFetches env config rs cache))) \<and>
         (length rs = 500 \<and> effectiveStarsLimit config = 20 \<and>
          (\<forall>r \<in> set (topRepos config rs). map_of (repos cache) (fullName r) = None)
            \<longrightarrow> length (liveFetches env config rs cache) = 20)"
proof (intro conjI impI ballI)
  have "length (liveFetches env config rs cache) \<le> length (topRepos config rs)"
    by (simp add: liveFetches_eq length_toFetch_le)
  then show "length (liveFetches env config rs cache) \<le> nat (effectiveStarsLimit config)"
    using length_topRepos [OF assms, of rs] by simp
next
  show "liveFetches env config rs cache = map fullName (toFetch (topRepos config rs) cache)"
    by (rule liveFetches_eq)
next
  fix r assume "distinct (map fullName rs)" "r \<in> set (otherRepos config rs)"
  then show "fullName r \<notin> set (liveFetches env config rs cache)"
    by (rule other_not_fetched)
next
  assume h: "length rs = 500 \<and> effectiveStarsLimit config = 20 \<and>
          (\<forall>r \<in> set (topRepos config rs). map_of (repos cache) (fullName r) = None)"
  then have "toFetch (topRepos config rs) cache = topRepos config rs"
    by (simp add: toFetch_all)
  then show "length (liveFetches env config rs cache) = 20"
    using h length_topRepos [OF assms, of rs] by (simp add: liveFetches_eq)
qed

text \<open>
  The claim C4 as stated fails twice: with the budget 0 and one rollup the pass makes
  one live call, more than the budget; and with 500 rollups, the budget 20 and a cache
  that holds them the pass makes no live call, not 20.
\<close>

theorem budget_claim_counterexample:
  "starsLimit ex_config0 = Some 0 \<and>
   liveFetches ex_env ex_config0 [ex_rollup] ex_empty_cache = [''alice/x''] \<and>
   \<not> length (liveFetches ex_env ex_config0 [ex_rollup] ex_empty_cache) \<le> nat 0 \<and>
   length ex_repos500 = 500 \<and> starsLimit DEFAULT_CONFIG = Some 20 \<and>
   liveFetches ex_env DEFAULT_CONFIG ex_repos500 ex_cache500 = [] \<and>
   length (liveFetches ex_env DEFAULT_CONFIG ex_repos500 ex_cache500) \<noteq> 20"
proof -
  have a: "liveFetches ex_env ex_config0 [ex_rollup] ex_empty_cache = [''alice/x'']"
    by code_simp
  have "\<forall>r \<in> set (topRepos DEFAULT_CONFIG ex_repos500).
          map_of (repos ex_cache500) (fullName r) \<noteq> None"
    using set_topRepos [of DEFAULT_CONFIG ex_repos500] ex_cache500_covers by blast
  then have b: "liveFetches ex_env DEFAULT_CONFIG ex_repos500 ex_cache500 = []"
    by (simp add: liveFetches_eq toFetch_none)
  have c: "starsLimit ex_config0 = Some 0" "starsLimit DEFAULT_CONFIG = Some 20"
    by (simp_all add: ex_config0_def DEFAULT_CONFIG_def)
  from a b c length_ex_repos500 show ?thesis by simp
qed

theorem live_fetches_within_budget_witness:
  "0 < effectiveStarsLimit ex_config1 \<and>
   liveFetches ex_env ex_config1 [ex_rollup, ex_ext, ex_priv] ex_empty_cache = [''carol/z''] \<and>
   length (liveFetches ex_env ex_config1 [ex_rollup, ex_ext, ex_priv] ex_empty_cache)
     \<le> nat (effectiveStarsLimit ex_config1) \<and>
   distinct (map fullName [ex_rollup, ex_ext, ex_priv]) \<and>
   otherRepos ex_config1 [ex_rollup, ex_ext, ex_priv] = [ex_rollup, ex_ext] \<and>
   fullName ex_ext \<notin> set (liveFetches ex_env ex_config1 [ex_rollup, ex_ext, ex_priv] ex_empty_cache) \<and>
   0 < effectiveStarsLimit DEFAULT_CONFIG \<and> length ex_repos500 = 500 \<and>
   effectiveStarsLimit DEFAULT_CONFIG = 20 \<and>
   length (liveFetches ex_env DEFAULT_CONFIG ex_repos500 ex_empty_cache) = 20"
proof -
  have e1: "0 < effectiveStarsLimit ex_config1"
    by (simp add: effectiveStarsLimit_def ex_config1_def)
  have e20: "effectiveStarsLimit DEFAULT_CONFIG = 20"
    by (simp add: effectiveStarsLimit_def DEFAULT_CONFIG_def)
  then have p20: "0 < effectiveStarsLimit DEFAULT_CONFIG" by simp
  have d: "distinct (map fullName [ex_rollup, ex_ext, ex_priv])"
    by (simp add: ex_rollup_def ex_ext_def ex_priv_def)
  have o: "otherRepos ex_config1 [ex_rollup, ex_ext, ex_priv] = [ex_rollup, ex_ext]"
    by (simp add: otherRepos_def ex_rank3 sliceFrom_def relIndex_def effectiveStarsLimit_def
        ex_config1_def)
  have l: "liveFetches ex_env ex_config1 [ex_rollup, ex_ext, ex_priv] ex_empty_cache = [''carol/z'']"
    by code_simp
  note small = live_fetches_within_budget [OF e1, of ex_env "[ex_rollup, ex_ext, ex_priv]" ex_empty_cache]
  from small have s1: "length (liveFetches ex_env ex_config1 [ex_rollup, ex_ext, ex_priv] ex_empty_cache)
     \<le> nat (effectiveStarsLimit ex_config1)" by blast
  from small d have "\<forall>r \<in> set (otherRepos ex_config1 [ex_rollup, ex_ext, ex_priv]).
      fullName r \<notin> set (liveFetches ex_env ex_config1 [ex_rollup, ex_ext, ex_priv] ex_empty_cache)"
    by blast
  with o have s2: "fullName ex_ext \<notin> set (liveFetches ex_env ex_config1 [ex_rollup, ex_ext, ex_priv] ex_empty_cache)"
    by simp
  have u: "\<forall>r \<in> set (topRepos DEFAULT_CONFIG ex_repos500).
             map_of (repos ex_empty_cache) (fullName r) = None"
    by (simp add: ex_empty_cache_def)
  from live_fetches_within_budget [OF p20, of ex_env ex_repos500 ex_empty_cache] u e20
    length_ex_repos500
  have big: "length (liveFetches ex_env DEFAULT_CONFIG ex_repos500 ex_empty_cache) = 20"
    by blast
  from e1 e20 p20 d o l s1 s2 big length_ex_repos500 show ?thesis by simp
qed

text \<open>
  Claim C10. For the rollup at any position of the hot set whose \<open>fullName\<close> the durable
  cache holds, the pass overwrites \<open>stars\<close> and \<open>isPrivate\<close> and also \<open>isOwned\<close> and
  \<open>lastContributedAt\<close> with the values of the cached entry, and leaves \<open>name\<close>,
  \<open>fullName\<close>, \<open>url\<close> and \<open>prCount\<close> as the aggregation set them.
\<close>

theorem cached_hot_entry_overwritten:
  assumes "i < length (topRepos config rs)"
    and "map_of (repos cache) (fullName (topRepos config rs ! i)) = Some cached"
  shows "stars (enriched env config rs cache ! i) = stars cached \<and>
         isPrivate (enriched env config rs cache ! i) = isPrivate cached \<and>
         isOwned (enriched env config rs cache ! i) = isOwned cached \<and>
         lastContributedAt (enriched env config rs cache ! i) = lastContributedAt cached \<and>
         name (enriched env config rs cache ! i) = name (topRepos config rs ! i) \<and>
         fullName (enriched env config rs cache ! i) = fullName (topRepos config rs ! i) \<and>
         url (enriched env config rs cache ! i) = url (topRepos config rs ! i) \<and>
         prCount (enriched env config rs cache ! i) = prCount (topRepos config rs ! i)"
  using assms(2) by (simp add: enriched_nth [OF assms(1)] useCached_def)

theorem cached_hot_entry_overwritten_witness:
  "0 < length (topRepos DEFAULT_CONFIG [ex_rollup, ex_ext]) \<and>
   topRepos DEFAULT_CONFIG [ex_rollup, ex_ext] ! 0 = ex_rollup \<and>
   map_of (repos ex_cache) (fullName ex_rollup) = Some ex_cached \<and>
   isOwned ex_rollup \<and> lastContributedAt ex_rollup = ''2024-03-01T10:00:00Z'' \<and>
   stars (enriched ex_env DEFAULT_CONFIG [ex_rollup, ex_ext] ex_cache ! 0) = 9 \<and>
   isPrivate (enriched ex_env DEFAULT_CONFIG [ex_rollup, ex_ext] ex_cache ! 0) \<and>
   \<not> isOwned (enriched ex_env DEFAULT_CONFIG [ex_rollup, ex_ext] ex_cache ! 0) \<and>
   lastContributedAt (enriched ex_env DEFAULT_CONFIG [ex_rollup, ex_ext] ex_cache ! 0)
     = ''2020-01-01T00:00:00Z'' \<and>
   prCount (enriched ex_env DEFAULT_CONFIG [ex_rollup, ex_ext] ex_cache ! 0) = 2 \<and>
   fst (snd (fetchAndCache ex_env_ok 3 100000000 100000001 ''alice'' DEFAULT_CONFIG
               ex_state_cached))
     = Some (Inr [useCached ex_rollup ex_cached])"
proof -
  have l: "0 < length (topRepos DEFAULT_CONFIG [ex_rollup, ex_ext])"
    by (simp add: ex_top2)
  have n: "topRepos DEFAULT_CONFIG [ex_rollup, ex_ext] ! 0 = ex_rollup"
    by (simp add: ex_top2)
  have c: "map_of (repos ex_cache) (fullName ex_rollup) = Some ex_cached"
    by (simp add: ex_fullName)
  then have c': "map_of (repos ex_cache) (fullName (topRepos DEFAULT_CONFIG [ex_rollup, ex_ext] ! 0))
      = Some ex_cached" by (simp add: n)
  from cached_hot_entry_overwritten [OF l c', where env = ex_env] n
  have "stars (enriched ex_env DEFAULT_CONFIG [ex_rollup, ex_ext] ex_cache ! 0) = stars ex_cached"
    "isPrivate (enriched ex_env DEFAULT_CONFIG [ex_rollup, ex_ext] ex_cache ! 0) = isPrivate ex_cached"
    "isOwned (enriched ex_env DEFAULT_CONFIG [ex_rollup, ex_ext] ex_cache ! 0) = isOwned ex_cached"
    "lastContributedAt (enriched ex_env DEFAULT_CONFIG [ex_rollup, ex_ext] ex_cache ! 0)
       = lastContributedAt ex_cached"
    "prCount (enriched ex_env DEFAULT_CONFIG [ex_rollup, ex_ext] ex_cache ! 0) = prCount ex_rollup"
    by simp_all
  then show ?thesis using l n c ex_run_cached by (simp add: ex_cached_def ex_rollup_def)
qed


section \<open>Reads, scheduling and settlement\<close>

lemma revalidate_settle [simp]:
  "revalidatePromise (settle env fuel t0 t1 pid s) = revalidatePromise s"
  "revalidateUser (settle env fuel t0 t1 pid s) = revalidateUser s"
  by (auto simp: settle_def fetchAndCache_def saveCache_def Let_def
      split: option.splits prod.splits sum.splits if_splits)

lemma readMemoryCache_fresh:
  assumes "memoryCache s (resolveUser env config) = Some c" "data c = Some d"
    "now - fetchedAtMs c < CACHE_AGE_MS"
  shows "readMemoryCache env now config s =
     (Inr (project env d config, \<lparr> fromCache = True, isStale = False, age = now - fetchedAtMs c \<rparr>,
           resolveUser env config),
      if revalidatePromise s = None \<or> revalidateUser s \<noteq> Some (resolveUser env config)
      then scheduleRevalidation (resolveUser env config) config s else s)"
  using assms
  by (simp add: readMemoryCache_def Let_def CACHE_AGE_MS_def STALE_WHILE_REVALIDATE_MS_def)


lemma marked_read_schedules_nothing:
  assumes "revalidatePromise s \<noteq> None" "revalidateUser s = Some (resolveUser env config)"
  shows "snd (readMemoryCache env now config s) = s"
  using assms
  by (auto simp: readMemoryCache_def Let_def split: option.splits)

lemma ex_after_stale_read_eq:
  "ex_after_stale_read =
     ex_state_alice\<lparr> revalidateUser := Some ''alice'', revalidatePromise := Some 0,
                     pending := [(0, ''alice'', DEFAULT_CONFIG)], nextPromise := 1 \<rparr>"
  by (simp add: ex_after_stale_read_def readMemoryCache_def Let_def CACHE_AGE_MS_def
      STALE_WHILE_REVALIDATE_MS_def resolveUser_def ex_env_def DEFAULT_CONFIG_def
      ex_state_alice_def initialState_def scheduleRevalidation_def)

lemma ex_after_settle_eq:
  "ex_after_settle =
     ex_state_alice\<lparr> revalidateUser := Some ''alice'', revalidatePromise := Some 0,
                     pending := [], nextPromise := 1 \<rparr>"
  by (simp add: ex_after_settle_def ex_after_stale_read_eq settle_def
      fetchAndCache_def loadCache_def initialState_def isCacheStale_def Let_def
      fetchContributedRepos_def startYear_def ex_env_def upto.simps perPage_def
      numeral_3_eq_3 ex_state_alice_def)

text \<open>
  Claim C2, where the code departs from it. The memory cache holds an entry for \<open>alice\<close>
  written at time 0 and no revalidation has ever been started. A read at 30 seconds,
  inside the freshness window of 60 seconds, is answered from the cache as fresh
  (\<open>isStale = False\<close>), and it starts a background revalidation all the same: the
  variable \<open>isStale\<close> of \<open>getRepos\<close> is true for every age below 24 hours, a fresh age
  included, and it alone guards the scheduling.
\<close>

theorem fresh_read_schedules_revalidation:
  "memoryCache ex_state_alice ''alice'' = Some \<lparr> data = Some [ex_rollup], fetchedAtMs = 0 \<rparr> \<and>
   30000 - 0 < CACHE_AGE_MS \<and>
   pending ex_state_alice = [] \<and> revalidatePromise ex_state_alice = None \<and>
   fst (readMemoryCache ex_env 30000 DEFAULT_CONFIG ex_state_alice)
     = Inr (project ex_env [ex_rollup] DEFAULT_CONFIG,
            \<lparr> fromCache = True, isStale = False, age = 30000 \<rparr>, ''alice'') \<and>
   pending (snd (readMemoryCache ex_env 30000 DEFAULT_CONFIG ex_state_alice))
     = [(0, ''alice'', DEFAULT_CONFIG)] \<and>
   revalidatePromise (snd (readMemoryCache ex_env 30000 DEFAULT_CONFIG ex_state_alice)) = Some 0 \<and>
   inFlightFor ''alice'' (snd (readMemoryCache ex_env 30000 DEFAULT_CONFIG ex_state_alice)) = [0]"
  by (simp add: readMemoryCache_def Let_def CACHE_AGE_MS_def STALE_WHILE_REVALIDATE_MS_def
      resolveUser_def ex_env_def DEFAULT_CONFIG_def ex_state_alice_def initialState_def
      scheduleRevalidation_def inFlightFor_def)


text \<open>
  Claim C3, where the code departs from it. A read at 10 minutes starts revalidation 0
  for \<open>alice\<close>. When that revalidation settles, rejected or fulfilled, nothing is in
  flight for \<open>alice\<close> any more, but \<open>revalidatePromise\<close> and \<open>revalidateUser\<close> still hold
  it (lemma \<open>revalidate_settle\<close>: no settlement ever changes them), so the next stale
  read starts nothing. And the marker is one pair of variables for all users: reads for
  \<open>alice\<close>, \<open>bob\<close> and \<open>alice\<close> with nothing settled in between leave two revalidations
  in flight for \<open>alice\<close>.
\<close>

theorem revalidation_marker_never_cleared:
  "inFlightFor ''alice'' ex_after_stale_read = [0] \<and>
   revalidatePromise ex_after_stale_read = Some 0 \<and>
   inFlightFor ''alice'' ex_after_settle = [] \<and>
   revalidatePromise ex_after_settle = Some 0 \<and>
   revalidateUser ex_after_settle = Some ''alice'' \<and>
   inFlightFor ''alice'' ex_after_settle_ok = [] \<and>
   revalidatePromise ex_after_settle_ok = Some 0 \<and>
   isStale (fst (snd (projr (fst (readMemoryCache ex_env 700000 DEFAULT_CONFIG ex_after_settle))))) \<and>
   inFlightFor ''alice'' ex_after_retry = [] \<and>
   inFlightFor ''alice'' ex_interleaved = [0, 2]"
proof -
  have a: "inFlightFor ''alice'' ex_after_stale_read = [0]"
    "revalidatePromise ex_after_stale_read = Some 0"
    by (simp_all add: ex_after_stale_read_eq inFlightFor_def)
  have b: "inFlightFor ''alice'' ex_after_settle = []"
    "revalidatePromise ex_after_settle = Some 0"
    "revalidateUser ex_after_settle = Some ''alice''"
    by (simp_all add: ex_after_settle_eq inFlightFor_def)
  have c: "revalidatePromise ex_after_settle_ok = Some 0"
    by (simp add: ex_after_settle_ok_def a)
  have c': "inFlightFor ''alice'' ex_after_settle_ok = []"
    by (simp add: ex_after_settle_ok_def ex_after_stale_read_eq settle_def inFlightFor_def
      fetchAndCache_def loadCache_def initialState_def isCacheStale_def Let_def
      fetchContributedRepos_def startYear_def ex_env_def ex_env_ok_def upto.simps perPage_def
      numeral_3_eq_3 ex_state_alice_def saveCache_def split: prod.splits)
  have d: "isStale (fst (snd (projr (fst (readMemoryCache ex_env 700000 DEFAULT_CONFIG ex_after_settle)))))"
    "inFlightFor ''alice'' ex_after_retry = []"
    by (simp_all add: ex_after_retry_def ex_after_settle_eq readMemoryCache_def Let_def
      CACHE_AGE_MS_def STALE_WHILE_REVALIDATE_MS_def resolveUser_def ex_env_def
      DEFAULT_CONFIG_def ex_state_alice_def initialState_def inFlightFor_def)
  have e: "inFlightFor ''alice'' ex_interleaved = [0, 2]"
    by (simp add: ex_interleaved_def readMemoryCache_def Let_def
      CACHE_AGE_MS_def STALE_WHILE_REVALIDATE_MS_def resolveUser_def ex_env_def
      DEFAULT_CONFIG_def ex_state_two_def initialState_def inFlightFor_def
      ex_config_alice_def ex_config_bob_def scheduleRevalidation_def)
  from a b c c' d e show ?thesis by simp
qed


end
